theory Spec2Isabelle
  imports Main "HOL-Library.Sublist"
begin

section \<open>Values exchanged by the two applications\<close>

text \<open>
  A decoded message is whatever \<^verbatim>\<open>json.loads\<close> returns: \<^verbatim>\<open>None\<close>, a bool, an int, a
  str, a list or a dict with str keys. A dict is kept as an association list in insertion
  order (the order \<^verbatim>\<open>keys()\<close> and \<^verbatim>\<open>values()\<close> iterate in); a Python dict has each key
  once. JSON numbers with a fraction or an exponent (Python floats) are not represented.
\<close>

datatype json =
    JNull
  | JBool bool
  | JInt int
  | JStr string
  | JList "json list"
  | JObj "(string \<times> json) list"

type_synonym pydict = "(string \<times> json) list"

datatype py_error =
    AttributeError
  | TypeError
  | ValueError
  | RuntimeError
  | JSONDecodeError
  | TimeoutError
  | ConnectionError
  | PostgresError
  | BrokerError

text \<open>\<^verbatim>\<open>d.get(k, default)\<close> and \<^verbatim>\<open>k in d\<close>.\<close>

definition dict_get :: "pydict \<Rightarrow> string \<Rightarrow> json \<Rightarrow> json" where
  "dict_get d k dflt = (case map_of d k of None \<Rightarrow> dflt | Some v \<Rightarrow> v)"

definition dict_contains :: "pydict \<Rightarrow> string \<Rightarrow> bool" where
  "dict_contains d k = (map_of d k \<noteq> None)"

text \<open>Python truth value of a decoded value, as tested by \<^verbatim>\<open>not x\<close>.\<close>

fun truthy :: "json \<Rightarrow> bool" where
  "truthy JNull = False"
| "truthy (JBool b) = b"
| "truthy (JInt n) = (n \<noteq> 0)"
| "truthy (JStr s) = (s \<noteq> [])"
| "truthy (JList xs) = (xs \<noteq> [])"
| "truthy (JObj kvs) = (kvs \<noteq> [])"

section \<open>The runtime the consumer runs on\<close>

text \<open>
  What the Python runtime and the database driver supply, taken as parameters:
  \<^item> \<open>str_upper\<close> is \<^verbatim>\<open>str.upper\<close>;
  \<^item> \<open>format_other\<close> is the text an f-string gives a value that is not a str;
  \<^item> \<open>pool\<close> says what happens to a statement inside
    \<^verbatim>\<open>async with self.pool.acquire() as conn: await conn.execute(query, *args)\<close>.
\<close>

type_synonym statement = "string \<times> json list"

datatype db_result = AcquireRaises py_error | ExecuteRaises py_error | Executed

record runtime =
  str_upper :: "string \<Rightarrow> string"
  format_other :: "json \<Rightarrow> string"
  pool :: "statement \<Rightarrow> db_result"

definition format_value :: "runtime \<Rightarrow> json \<Rightarrow> string" where
  "format_value rt v = (case v of JStr s \<Rightarrow> s | _ \<Rightarrow> format_other rt v)"

text \<open>ASCII upper-casing, the part of \<^verbatim>\<open>str.upper\<close> used when a model is evaluated.\<close>

definition ascii_upper_char :: "char \<Rightarrow> char" where
  "ascii_upper_char c =
     (case map_of (zip ''abcdefghijklmnopqrstuvwxyz'' ''ABCDEFGHIJKLMNOPQRSTUVWXYZ'') c of
        None \<Rightarrow> c
      | Some u \<Rightarrow> u)"

definition ascii_upper :: "string \<Rightarrow> string" where
  "ascii_upper s = map ascii_upper_char s"

section \<open>database\_client.py\<close>

text \<open>\<^verbatim>\<open>sep.join(items)\<close> and the decimal text of \<^verbatim>\<open>f"{n}"\<close> for a natural number.\<close>

fun join :: "string \<Rightarrow> string list \<Rightarrow> string" where
  "join sep [] = []"
| "join sep [x] = x"
| "join sep (x # y # ys) = x @ sep @ join sep (y # ys)"

definition digit_char :: "nat \<Rightarrow> char" where
  "digit_char d = ''0123456789'' ! d"

fun str_of_nat :: "nat \<Rightarrow> string" where
  "str_of_nat n = (if n < 10 then [digit_char n] else str_of_nat (n div 10) @ [digit_char (n mod 10)])"

declare str_of_nat.simps [simp del]

definition placeholder :: "nat \<Rightarrow> string" where
  "placeholder n = CHR ''$'' # str_of_nat n"

text \<open>
  \<^verbatim>\<open>[f"{k} = ${i+1+offset}" for i, k in enumerate(keys)]\<close>; \<open>offset\<close> is 0 in the SET
  clause and in DELETE, and \<^verbatim>\<open>len(data)\<close> in the WHERE clause of UPDATE.
\<close>

definition assignments :: "nat \<Rightarrow> string list \<Rightarrow> string list" where
  "assignments offset ks =
     map (\<lambda>(i, k). k @ '' = '' @ placeholder (i + 1 + offset)) (enumerate 0 ks)"

definition insert_query :: "string \<Rightarrow> pydict \<Rightarrow> string" where
  "insert_query table data =
     (let keys = join '', '' (map fst data);
          values = join '', '' (map (\<lambda>i. placeholder (i + 1)) [0..<length data])
      in ''INSERT INTO '' @ table @ '' ('' @ keys @ '') VALUES ('' @ values @ '')'')"

definition update_query :: "string \<Rightarrow> pydict \<Rightarrow> pydict \<Rightarrow> string" where
  "update_query table data wh =
     (let set_clause = join '', '' (assignments 0 (map fst data));
          where_clause = join '' AND '' (assignments (length data) (map fst wh))
      in ''UPDATE '' @ table @ '' SET '' @ set_clause @ '' WHERE '' @ where_clause)"

definition delete_query :: "string \<Rightarrow> pydict \<Rightarrow> string" where
  "delete_query table wh =
     (let where_clause = join '' AND '' (assignments 0 (map fst wh))
      in ''DELETE FROM '' @ table @ '' WHERE '' @ where_clause)"

text \<open>The statement each method hands to \<^verbatim>\<open>conn.execute\<close>: the text and the bound arguments.\<close>

definition insert_statement :: "string \<Rightarrow> pydict \<Rightarrow> statement" where
  "insert_statement table data = (insert_query table data, map snd data)"

definition update_statement :: "string \<Rightarrow> pydict \<Rightarrow> pydict \<Rightarrow> statement" where
  "update_statement table data wh = (update_query table data wh, map snd data @ map snd wh)"

definition delete_statement :: "string \<Rightarrow> pydict \<Rightarrow> statement" where
  "delete_statement table wh = (delete_query table wh, map snd wh)"

text \<open>
  The three methods as the consumer calls them, on decoded values. \<^verbatim>\<open>data.keys()\<close> and
  \<^verbatim>\<open>where.keys()\<close> raise AttributeError on anything but a dict, before the pool is touched.
  The result is the statements that reached \<^verbatim>\<open>conn.execute\<close> and the outcome of the call.
\<close>

definition run_statement :: "runtime \<Rightarrow> statement \<Rightarrow> statement list \<times> (py_error + bool)" where
  "run_statement rt stmt =
     (case pool rt stmt of
        AcquireRaises e \<Rightarrow> ([], Inl e)
      | ExecuteRaises e \<Rightarrow> ([stmt], Inl e)
      | Executed \<Rightarrow> ([stmt], Inr True))"

definition insert_db :: "runtime \<Rightarrow> json \<Rightarrow> json \<Rightarrow> statement list \<times> (py_error + bool)" where
  "insert_db rt table data =
     (case data of
        JObj d \<Rightarrow> run_statement rt (insert_statement (format_value rt table) d)
      | _ \<Rightarrow> ([], Inl AttributeError))"

definition update_db :: "runtime \<Rightarrow> json \<Rightarrow> json \<Rightarrow> json \<Rightarrow> statement list \<times> (py_error + bool)" where
  "update_db rt table data wh =
     (case data of
        JObj d \<Rightarrow>
          (case wh of
             JObj w \<Rightarrow> run_statement rt (update_statement (format_value rt table) d w)
           | _ \<Rightarrow> ([], Inl AttributeError))
      | _ \<Rightarrow> ([], Inl AttributeError))"

definition delete_db :: "runtime \<Rightarrow> json \<Rightarrow> json \<Rightarrow> statement list \<times> (py_error + bool)" where
  "delete_db rt table wh =
     (case wh of
        JObj w \<Rightarrow> run_statement rt (delete_statement (format_value rt table) w)
      | _ \<Rightarrow> ([], Inl AttributeError))"

section \<open>Reading a statement\<close>

text \<open>
  The driver binds the placeholder \<^verbatim>\<open>$n\<close> of a statement to its n-th argument, counting
  from 1. \<open>nat_of_str\<close> reads a decimal numeral back.
\<close>

definition bound_value :: "statement \<Rightarrow> nat \<Rightarrow> json option" where
  "bound_value stmt n =
     (if 1 \<le> n \<and> n \<le> length (snd stmt) then Some (snd stmt ! (n - 1)) else None)"

definition digit_value :: "char \<Rightarrow> nat" where
  "digit_value c = (of_char c :: nat) - 48"

definition nat_of_str :: "string \<Rightarrow> nat" where
  "nat_of_str s = foldl (\<lambda>a c. 10 * a + digit_value c) 0 s"

section \<open>The JSON codec of the Python runtime\<close>

text \<open>
  The payload is \<^verbatim>\<open>json.dumps(data, ensure_ascii=False, default=str).encode('utf-8')\<close> on the
  producer side and is read back with \<^verbatim>\<open>json.loads(message.data.decode("utf-8"))\<close> on the
  consumer side. Both are library code; they are modelled here after the \<^verbatim>\<open>json\<close> module of
  CPython, on the values of type \<open>json\<close>. A \<open>string\<close> stands for the UTF-8 bytes of a Python
  str, so that encoding and decoding the payload change nothing, and every character the
  codec treats specially is a single byte.
\<close>

definition quote :: char where
  "quote = CHR 0x22"

definition backslash :: char where
  "backslash = CHR 0x5C"

definition hex_digit :: "nat \<Rightarrow> char" where
  "hex_digit n = ''0123456789abcdef'' ! n"

text \<open>
  \<^verbatim>\<open>py_encode_basestring\<close>: the quote and the backslash are escaped, the control characters
  below 0x20 become \<^verbatim>\<open>\b \f \n \r \t\<close> or \<^verbatim>\<open>\u00XX\<close>, everything else is copied.
\<close>

definition escape_char :: "char \<Rightarrow> string" where
  "escape_char c =
     (if c = quote then [backslash, quote]
      else if c = backslash then [backslash, backslash]
      else if c = CHR 0x08 then [backslash, CHR ''b'']
      else if c = CHR 0x0C then [backslash, CHR ''f'']
      else if c = CHR 0x0A then [backslash, CHR ''n'']
      else if c = CHR 0x0D then [backslash, CHR ''r'']
      else if c = CHR 0x09 then [backslash, CHR ''t'']
      else if (of_char c :: nat) < 32 then
        [backslash, CHR ''u'', CHR ''0'', CHR ''0'',
         hex_digit ((of_char c :: nat) div 16), hex_digit ((of_char c :: nat) mod 16)]
      else [c])"

definition encode_basestring :: "string \<Rightarrow> string" where
  "encode_basestring s = quote # concat (map escape_char s) @ [quote]"

definition int_repr :: "int \<Rightarrow> string" where
  "int_repr n = (if n < 0 then CHR ''-'' # str_of_nat (nat (- n)) else str_of_nat (nat n))"

fun dumps :: "json \<Rightarrow> string" where
  "dumps JNull = ''null''"
| "dumps (JBool b) = (if b then ''true'' else ''false'')"
| "dumps (JInt n) = int_repr n"
| "dumps (JStr s) = encode_basestring s"
| "dumps (JList xs) = ''['' @ join '', '' (map dumps xs) @ '']''"
| "dumps (JObj kvs) =
     ''{'' @ join '', '' (map (\<lambda>(k, v). encode_basestring k @ '': '' @ dumps v) kvs) @ ''}''"

text \<open>The decoder: white space, string literals, numbers.\<close>

definition is_ws :: "char \<Rightarrow> bool" where
  "is_ws c = (c = CHR '' '' \<or> c = CHR 0x09 \<or> c = CHR 0x0A \<or> c = CHR 0x0D)"

definition skip_ws :: "string \<Rightarrow> string" where
  "skip_ws s = dropWhile is_ws s"

definition is_digit :: "char \<Rightarrow> bool" where
  "is_digit c = (c \<in> set ''0123456789'')"

definition hex_value :: "char \<Rightarrow> nat option" where
  "hex_value c =
     map_of (zip ''0123456789abcdefABCDEF''
       [0, 1, 2, 3, 4, 5, 6, 7, 8, 9, 10, 11, 12, 13, 14, 15, 10, 11, 12, 13, 14, 15]) c"

definition hex4 :: "string \<Rightarrow> (nat \<times> string) option" where
  "hex4 s =
     (case s of
        a # b # c # d # r \<Rightarrow>
          (case (hex_value a, hex_value b, hex_value c, hex_value d) of
             (Some x, Some y, Some z, Some w) \<Rightarrow> Some (4096 * x + 256 * y + 16 * z + w, r)
           | _ \<Rightarrow> None)
      | _ \<Rightarrow> None)"

definition unescape :: "char \<Rightarrow> char option" where
  "unescape e =
     map_of [(quote, quote), (backslash, backslash), (CHR ''/'', CHR ''/''),
             (CHR ''b'', CHR 0x08), (CHR ''f'', CHR 0x0C), (CHR ''n'', CHR 0x0A),
             (CHR ''r'', CHR 0x0D), (CHR ''t'', CHR 0x09)] e"

text \<open>
  The UTF-8 bytes of a code point; a lone surrogate has none, so a document that escapes
  one has no counterpart here and is refused, which Python does not do.
\<close>

definition utf8 :: "nat \<Rightarrow> string option" where
  "utf8 n =
     (if n < 0x80 then Some [char_of n]
      else if n < 0x800 then Some [char_of (0xC0 + n div 64), char_of (0x80 + n mod 64)]
      else if 0xD800 \<le> n \<and> n \<le> 0xDFFF then None
      else if n < 0x10000 then
        Some [char_of (0xE0 + n div 4096), char_of (0x80 + (n div 64) mod 64),
              char_of (0x80 + n mod 64)]
      else
        Some [char_of (0xF0 + n div 262144), char_of (0x80 + (n div 4096) mod 64),
              char_of (0x80 + (n div 64) mod 64), char_of (0x80 + n mod 64)])"

definition prepend :: "string option \<Rightarrow> (string \<times> string) option \<Rightarrow> (string \<times> string) option" where
  "prepend cs res =
     (case cs of
        None \<Rightarrow> None
      | Some pre \<Rightarrow> (case res of None \<Rightarrow> None | Some (s, r) \<Rightarrow> Some (pre @ s, r)))"

text \<open>
  \<^verbatim>\<open>scanstring\<close>, entered after the opening quote, in strict mode: a control character in
  the literal is an error.
\<close>

fun scanstring :: "string \<Rightarrow> (string \<times> string) option" where
  "scanstring [] = None"
| "scanstring (c # cs) =
     (if c = quote then Some ([], cs)
      else if c = backslash then
        (case cs of
           [] \<Rightarrow> None
         | e # cs' \<Rightarrow>
             if e = CHR ''u'' then
               (case cs' of
                  a # b # c' # d # r \<Rightarrow>
                    (case hex4 [a, b, c', d] of
                       None \<Rightarrow> None
                     | Some (n, _) \<Rightarrow>
                         if 0xD800 \<le> n \<and> n \<le> 0xDBFF then
                           (case r of
                              b1 # u1 # a2 # b2 # c2 # d2 # r' \<Rightarrow>
                                if b1 = backslash \<and> u1 = CHR ''u'' then
                                  (case hex4 [a2, b2, c2, d2] of
                                     None \<Rightarrow> None
                                   | Some (n2, _) \<Rightarrow>
                                       if 0xDC00 \<le> n2 \<and> n2 \<le> 0xDFFF then
                                         prepend
                                           (utf8 (0x10000 + ((n - 0xD800) * 1024 + (n2 - 0xDC00))))
                                           (scanstring r')
                                       else None)
                                else None
                            | _ \<Rightarrow> None)
                         else prepend (utf8 n) (scanstring r))
                | _ \<Rightarrow> None)
             else prepend (map_option (\<lambda>ch. [ch]) (unescape e)) (scanstring cs'))
      else if (of_char c :: nat) < 32 then None
      else prepend (Some [c]) (scanstring cs))"

text \<open>
  A number: an optional minus sign, then \<^verbatim>\<open>0\<close> or a digit from 1 to 9 followed by digits. When
  a fraction or an exponent follows, Python reads a float, which \<open>json\<close> does not have; the
  same holds for the constants \<^verbatim>\<open>NaN\<close>, \<^verbatim>\<open>Infinity\<close> and \<^verbatim>\<open>-Infinity\<close>. Such a document is
  refused here.
\<close>

definition has_fraction :: "string \<Rightarrow> bool" where
  "has_fraction s = (case s of p # d # r \<Rightarrow> p = CHR ''.'' \<and> is_digit d | _ \<Rightarrow> False)"

definition has_exponent :: "string \<Rightarrow> bool" where
  "has_exponent s =
     (case s of
        e # r \<Rightarrow>
          (e = CHR ''e'' \<or> e = CHR ''E'') \<and>
          (case r of
             d # r' \<Rightarrow>
               is_digit d \<or>
               ((d = CHR ''+'' \<or> d = CHR ''-'') \<and> (case r' of d' # _ \<Rightarrow> is_digit d' | [] \<Rightarrow> False))
           | [] \<Rightarrow> False)
      | [] \<Rightarrow> False)"

definition match_digits :: "string \<Rightarrow> (string \<times> string) option" where
  "match_digits s =
     (case s of
        [] \<Rightarrow> None
      | c # r \<Rightarrow>
          if c = CHR ''0'' then Some ([c], r)
          else if is_digit c then Some (takeWhile is_digit s, dropWhile is_digit s)
          else None)"

definition match_number :: "string \<Rightarrow> (json \<times> string) option" where
  "match_number s =
     (let (negative, s') = (case s of c # r \<Rightarrow> if c = CHR ''-'' then (True, r) else (False, s)
                                    | [] \<Rightarrow> (False, s))
      in case match_digits s' of
           None \<Rightarrow> None
         | Some (digits, r) \<Rightarrow>
             if has_fraction r \<or> has_exponent r then None
             else Some (JInt (if negative then - int (nat_of_str digits) else int (nat_of_str digits)), r))"

text \<open>\<^verbatim>\<open>dict(pairs)\<close>: a key that comes again keeps its place and takes the later value.\<close>

fun dict_set :: "pydict \<Rightarrow> string \<Rightarrow> json \<Rightarrow> pydict" where
  "dict_set [] k v = [(k, v)]"
| "dict_set ((k', v') # d) k v = (if k' = k then (k, v) # d else (k', v') # dict_set d k v)"

definition dict_of_pairs :: "(string \<times> json) list \<Rightarrow> pydict" where
  "dict_of_pairs ps = foldl (\<lambda>d (k, v). dict_set d k v) [] ps"

text \<open>
  \<^verbatim>\<open>scan_once\<close> with the loops of \<^verbatim>\<open>JSONArray\<close> and \<^verbatim>\<open>JSONObject\<close>. \<open>parse_items\<close> is entered at
  the first character of a value, \<open>parse_pairs\<close> after the opening quote of a key. Each
  returns the value read and the rest of the text. The tests \<open>length r < length s\<close> are
  there for the termination proof only: a value that is read takes at least one character.
\<close>

function scan_once :: "string \<Rightarrow> (json \<times> string) option"
  and parse_items :: "string \<Rightarrow> (json list \<times> string) option"
  and parse_pairs :: "string \<Rightarrow> ((string \<times> json) list \<times> string) option" where
  "scan_once s =
     (case s of
        [] \<Rightarrow> None
      | c # r \<Rightarrow>
          if c = quote then
            (case scanstring r of None \<Rightarrow> None | Some (str, r') \<Rightarrow> Some (JStr str, r'))
          else if c = CHR ''{'' then
            (case skip_ws r of
               [] \<Rightarrow> None
             | d # r1 \<Rightarrow>
                 if d = CHR ''}'' then Some (JObj [], r1)
                 else if d = quote then
                   (case parse_pairs r1 of
                      None \<Rightarrow> None
                    | Some (ps, r') \<Rightarrow> Some (JObj (dict_of_pairs ps), r'))
                 else None)
          else if c = CHR ''['' then
            (case skip_ws r of
               [] \<Rightarrow> None
             | d # r1 \<Rightarrow>
                 if d = CHR '']'' then Some (JList [], r1)
                 else (case parse_items (d # r1) of
                         None \<Rightarrow> None
                       | Some (vs, r') \<Rightarrow> Some (JList vs, r')))
          else if take 4 s = ''null'' then Some (JNull, drop 4 s)
          else if take 4 s = ''true'' then Some (JBool True, drop 4 s)
          else if take 5 s = ''false'' then Some (JBool False, drop 5 s)
          else match_number s)"
| "parse_items s =
     (case scan_once s of
        None \<Rightarrow> None
      | Some (v, r) \<Rightarrow>
          if length r < length s then
            (case skip_ws r of
               [] \<Rightarrow> None
             | c # r' \<Rightarrow>
                 if c = CHR '']'' then Some ([v], r')
                 else if c = CHR '','' then
                   (case parse_items (skip_ws r') of
                      None \<Rightarrow> None
                    | Some (vs, r'') \<Rightarrow> Some (v # vs, r''))
                 else None)
          else None)"
| "parse_pairs s =
     (case scanstring s of
        None \<Rightarrow> None
      | Some (key, r1) \<Rightarrow>
          if length r1 < length s then
            (case skip_ws r1 of
               [] \<Rightarrow> None
             | c # r2 \<Rightarrow>
                 if c = CHR '':'' then
                   (case scan_once (skip_ws r2) of
                      None \<Rightarrow> None
                    | Some (v, r3) \<Rightarrow>
                        if length r3 < length (skip_ws r2) then
                          (case skip_ws r3 of
                             [] \<Rightarrow> None
                           | c' # r4 \<Rightarrow>
                               if c' = CHR ''}'' then Some ([(key, v)], r4)
                               else if c' = CHR '','' then
                                 (case skip_ws r4 of
                                    [] \<Rightarrow> None
                                  | q # r5 \<Rightarrow>
                                      if q = quote then
                                        (case parse_pairs r5 of
                                           None \<Rightarrow> None
                                         | Some (ps, r6) \<Rightarrow> Some ((key, v) # ps, r6))
                                      else None)
                               else None)
                        else None)
                 else None)
          else None)"
  by pat_completeness auto
termination
proof (relation "measure (\<lambda>x. case x of Inl s \<Rightarrow> 2 * length s
                                   | Inr (Inl s) \<Rightarrow> 2 * length s + 1
                                   | Inr (Inr s) \<Rightarrow> 2 * length s + 1)", goal_cases)
  have ws: "length r < length s \<and> length (skip_ws r) < length s"
    if "skip_ws s = c # r" for s c r
  proof -
    have "length (skip_ws s) \<le> length s" "length (skip_ws r) \<le> length r"
      by (simp_all add: skip_ws_def length_dropWhile_le)
    moreover from that have "length (skip_ws s) = Suc (length r)" by simp
    ultimately show ?thesis by simp
  qed
  {
    case 1
    show ?case by simp
  next
    case 2
    then show ?case by (auto dest!: ws)
  next
    case 3
    then show ?case by (auto dest!: ws)
  next
    case 4
    then show ?case by simp
  next
    case 5
    then show ?case by (auto dest!: ws)
  next
    case 6
    then show ?case by (auto dest!: ws)
  next
    case 7
    then show ?case by (auto dest!: ws)
  }
qed

declare scan_once.simps [simp del] parse_items.simps [simp del] parse_pairs.simps [simp del]

text \<open>
  \<^verbatim>\<open>json.loads\<close>: white space, one value, white space, and nothing after it.
\<close>

definition loads :: "string \<Rightarrow> py_error + json" where
  "loads s =
     (case scan_once (skip_ws s) of
        None \<Rightarrow> Inl JSONDecodeError
      | Some (v, r) \<Rightarrow> if skip_ws r = [] then Inr v else Inl JSONDecodeError)"

text \<open>What every value built from Python dicts satisfies: no mapping has a key twice.\<close>

fun distinct_keys :: "json \<Rightarrow> bool" where
  "distinct_keys (JList xs) = list_all distinct_keys xs"
| "distinct_keys (JObj kvs) =
     (distinct (map fst kvs) \<and> list_all (\<lambda>(k, v). distinct_keys v) kvs)"
| "distinct_keys v = True"

text \<open>
  The text that may follow a value inside a document: nothing, a comma or a closing
  bracket or brace.
\<close>

definition value_end :: "string \<Rightarrow> bool" where
  "value_end rest = (case rest of [] \<Rightarrow> True | c # r \<Rightarrow> c \<in> set '',]}'')"

section \<open>app2-consumidora/main.py: MessageProcessor\<close>

text \<open>
  The process-wide counters, the calls made on the database client and the statements that
  reached the connection are the state a message is processed in.
\<close>

datatype db_call =
    CallInsert json json
  | CallUpdate json json json
  | CallDelete json json

record pstate =
  messages_received :: nat
  messages_processed :: nat
  messages_failed :: nat
  database_operations_success :: nat
  database_operations_failed :: nat
  db_calls :: "db_call list"
  sql_log :: "statement list"

text \<open>
  \<^verbatim>\<open>_validate_message\<close> returns a bool and logs one error line when it rejects; the line is
  kept as the reason. \<^verbatim>\<open>.upper()\<close> on an operation that is not a str raises AttributeError.
\<close>

datatype rejection =
    MissingField string
  | InvalidEventType json
  | InvalidOperation string
  | InsertRequiresData
  | UpdateRequiresDataAndWhere
  | DeleteRequiresWhere

datatype verdict = Valid | Rejected rejection

definition required_fields :: "string list" where
  "required_fields = [''operation'', ''table'', ''event_type'']"

definition valid_operations :: "string list" where
  "valid_operations = [''INSERT'', ''UPDATE'', ''DELETE'']"

fun first_missing :: "string list \<Rightarrow> pydict \<Rightarrow> string option" where
  "first_missing [] d = None"
| "first_missing (f # fs) d = (if \<not> dict_contains d f then Some f else first_missing fs d)"

definition method_upper :: "runtime \<Rightarrow> json \<Rightarrow> py_error + string" where
  "method_upper rt v = (case v of JStr s \<Rightarrow> Inr (str_upper rt s) | _ \<Rightarrow> Inl AttributeError)"

definition validate_message :: "runtime \<Rightarrow> pydict \<Rightarrow> py_error + verdict" where
  "validate_message rt message_data =
     (case first_missing required_fields message_data of
        Some field \<Rightarrow> Inr (Rejected (MissingField field))
      | None \<Rightarrow>
          if dict_get message_data ''event_type'' JNull \<noteq> JStr ''database_operation''
          then Inr (Rejected (InvalidEventType (dict_get message_data ''event_type'' JNull)))
          else
            (case method_upper rt (dict_get message_data ''operation'' (JStr '''')) of
               Inl e \<Rightarrow> Inl e
             | Inr operation \<Rightarrow>
                 if operation \<notin> set valid_operations
                 then Inr (Rejected (InvalidOperation operation))
                 else if operation = ''INSERT'' then
                   (if \<not> truthy (dict_get message_data ''data'' JNull)
                    then Inr (Rejected InsertRequiresData) else Inr Valid)
                 else if operation = ''UPDATE'' then
                   (if \<not> truthy (dict_get message_data ''data'' JNull)
                       \<or> \<not> truthy (dict_get message_data ''where_clause'' JNull)
                    then Inr (Rejected UpdateRequiresDataAndWhere) else Inr Valid)
                 else if operation = ''DELETE'' then
                   (if \<not> truthy (dict_get message_data ''where_clause'' JNull)
                    then Inr (Rejected DeleteRequiresWhere) else Inr Valid)
                 else Inr Valid))"

text \<open>
  \<^verbatim>\<open>_execute_database_operation\<close>: every exception of the client is caught and turned into
  False; the value the client returns is not looked at.
\<close>

definition returned :: "py_error + 'a \<Rightarrow> bool" where
  "returned r = (case r of Inl e \<Rightarrow> False | Inr v \<Rightarrow> True)"

definition execute_database_operation ::
  "runtime \<Rightarrow> pstate \<Rightarrow> string \<Rightarrow> json \<Rightarrow> json \<Rightarrow> json \<Rightarrow> bool \<times> pstate" where
  "execute_database_operation rt st operation table data where_clause =
     (if operation = ''INSERT'' then
        (let (stmts, r) = insert_db rt table data
         in (returned r, st\<lparr>db_calls := db_calls st @ [CallInsert table data],
                       sql_log := sql_log st @ stmts\<rparr>))
      else if operation = ''UPDATE'' then
        (let (stmts, r) = update_db rt table data where_clause
         in (returned r, st\<lparr>db_calls := db_calls st @ [CallUpdate table data where_clause],
                       sql_log := sql_log st @ stmts\<rparr>))
      else if operation = ''DELETE'' then
        (let (stmts, r) = delete_db rt table where_clause
         in (returned r, st\<lparr>db_calls := db_calls st @ [CallDelete table where_clause],
                       sql_log := sql_log st @ stmts\<rparr>))
      else (False, st))"

text \<open>
  \<^verbatim>\<open>process_message\<close>. The first \<^verbatim>\<open>message_data.get\<close> raises AttributeError when the decoded
  payload is not a dict; that and an exception of the validation end in the outer handler.
\<close>

definition on_exception :: "pstate \<Rightarrow> bool \<times> pstate" where
  "on_exception st = (False, st\<lparr>messages_failed := messages_failed st + 1\<rparr>)"

definition process_message :: "runtime \<Rightarrow> pstate \<Rightarrow> json \<Rightarrow> bool \<times> pstate" where
  "process_message rt st0 message =
     (let st = st0\<lparr>messages_received := messages_received st0 + 1\<rparr>
      in case message of
           JObj message_data \<Rightarrow>
             (case validate_message rt message_data of
                Inl e \<Rightarrow> on_exception st
              | Inr (Rejected reason) \<Rightarrow> (False, st\<lparr>messages_failed := messages_failed st + 1\<rparr>)
              | Inr Valid \<Rightarrow>
                  (case method_upper rt (dict_get message_data ''operation'' (JStr '''')) of
                     Inl e \<Rightarrow> on_exception st
                   | Inr operation \<Rightarrow>
                       (let table = dict_get message_data ''table'' (JStr '''');
                            data = dict_get message_data ''data'' (JObj []);
                            where_clause = dict_get message_data ''where_clause'' (JObj []);
                            (success, st') =
                               execute_database_operation rt st operation table data where_clause
                        in if success
                           then (True, st'\<lparr>messages_processed := messages_processed st' + 1,
                                   database_operations_success := database_operations_success st' + 1\<rparr>)
                           else (False, st'\<lparr>messages_failed := messages_failed st' + 1,
                                   database_operations_failed := database_operations_failed st' + 1\<rparr>))))
         | _ \<Rightarrow> on_exception st)"

section \<open>The validation rules as the specification words them\<close>

text \<open>
  The four stages of the validation, in the order the specification lists them, and the
  first stage an envelope fails. ``Present and non-empty'' is read with Python's truth
  value: an absent field, \<^verbatim>\<open>null\<close> and an empty mapping are all empty.
\<close>

datatype stage = FieldsPresent | EventType | OperationKind | OperationFields

definition fields_present :: "pydict \<Rightarrow> bool" where
  "fields_present d = (\<forall>f \<in> {''operation'', ''table'', ''event_type''}. f \<in> fst ` set d)"

definition event_type_ok :: "pydict \<Rightarrow> bool" where
  "event_type_ok d = (map_of d ''event_type'' = Some (JStr ''database_operation''))"

definition operation_of :: "runtime \<Rightarrow> pydict \<Rightarrow> string option" where
  "operation_of rt d =
     (case map_of d ''operation'' of Some (JStr s) \<Rightarrow> Some (str_upper rt s) | _ \<Rightarrow> None)"

definition operation_ok :: "runtime \<Rightarrow> pydict \<Rightarrow> bool" where
  "operation_ok rt d =
     (case operation_of rt d of
        Some op \<Rightarrow> op \<in> {''INSERT'', ''UPDATE'', ''DELETE''}
      | None \<Rightarrow> False)"

definition present_nonempty :: "pydict \<Rightarrow> string \<Rightarrow> bool" where
  "present_nonempty d k = (case map_of d k of None \<Rightarrow> False | Some v \<Rightarrow> truthy v)"

definition requirements_ok :: "runtime \<Rightarrow> pydict \<Rightarrow> bool" where
  "requirements_ok rt d =
     ((operation_of rt d = Some ''INSERT'' \<longrightarrow> present_nonempty d ''data'') \<and>
      (operation_of rt d = Some ''UPDATE'' \<longrightarrow>
         present_nonempty d ''data'' \<and> present_nonempty d ''where_clause'') \<and>
      (operation_of rt d = Some ''DELETE'' \<longrightarrow> present_nonempty d ''where_clause''))"

definition first_failure :: "runtime \<Rightarrow> pydict \<Rightarrow> stage option" where
  "first_failure rt d =
     (if \<not> fields_present d then Some FieldsPresent
      else if \<not> event_type_ok d then Some EventType
      else if \<not> operation_ok rt d then Some OperationKind
      else if \<not> requirements_ok rt d then Some OperationFields
      else None)"

text \<open>
  The stage an outcome of \<open>validate_message\<close> belongs to, read off the error line it logs.
  The only exception the validation can raise is the one of \<^verbatim>\<open>.upper()\<close>, in the
  check of the operation.
\<close>

fun rejection_stage :: "rejection \<Rightarrow> stage" where
  "rejection_stage (MissingField f) = FieldsPresent"
| "rejection_stage (InvalidEventType v) = EventType"
| "rejection_stage (InvalidOperation s) = OperationKind"
| "rejection_stage InsertRequiresData = OperationFields"
| "rejection_stage UpdateRequiresDataAndWhere = OperationFields"
| "rejection_stage DeleteRequiresWhere = OperationFields"

fun failed_stage :: "py_error + verdict \<Rightarrow> stage option" where
  "failed_stage (Inl e) = Some OperationKind"
| "failed_stage (Inr Valid) = None"
| "failed_stage (Inr (Rejected r)) = Some (rejection_stage r)"

section \<open>app2-consumidora/pubsub\_subscriber.py\<close>

text \<open>
  A delivered message carries an identifier and the payload bytes. What the callback gets
  from outside the repository is a parameter:
  \<^item> \<open>json_loads\<close> is \<^verbatim>\<open>json.loads(message.data.decode("utf-8"))\<close>, the decoded value or the
    exception of the decoding;
  \<^item> \<open>get_event_loop\<close> is the exception \<^verbatim>\<open>asyncio.get_event_loop()\<close> raises in the thread the
    callback runs in, if it raises one; otherwise the coroutine runs and \<^verbatim>\<open>.result()\<close> hands
    back what \<open>process_message\<close> returned.
  \<^verbatim>\<open>message.ack()\<close> and \<^verbatim>\<open>message.nack()\<close> only queue a request and return; each call is
  recorded in \<open>decisions\<close>.
\<close>

record message =
  message_id :: string
  data_bytes :: string

datatype decision = Ack | Nack

record bridge =
  json_loads :: "string \<Rightarrow> py_error + json"
  get_event_loop :: "py_error option"

record flow_control =
  max_messages :: nat

record subscriber =
  project_id :: string
  subscription_id :: string
  is_consuming :: bool
  streaming_pull :: "flow_control option"
  sub_messages_received :: nat
  messages_acked :: nat
  messages_nacked :: nat
  decisions :: "(string \<times> decision) list"

definition new_subscriber :: "string \<Rightarrow> string \<Rightarrow> subscriber" where
  "new_subscriber project subscription =
     \<lparr>project_id = project, subscription_id = subscription, is_consuming = False,
      streaming_pull = None, sub_messages_received = 0, messages_acked = 0,
      messages_nacked = 0, decisions = []\<rparr>"

definition callback ::
  "runtime \<Rightarrow> bridge \<Rightarrow> subscriber \<Rightarrow> pstate \<Rightarrow> message \<Rightarrow> subscriber \<times> pstate" where
  "callback rt br self0 pst message =
     (let self = self0\<lparr>sub_messages_received := sub_messages_received self0 + 1\<rparr>
      in case json_loads br (data_bytes message) of
           Inl e \<Rightarrow> (self\<lparr>decisions := decisions self @ [(message_id message, Nack)]\<rparr>, pst)
         | Inr data \<Rightarrow>
             (case get_event_loop br of
                Some e \<Rightarrow>
                  (self\<lparr>decisions := decisions self @ [(message_id message, Nack)]\<rparr>, pst)
              | None \<Rightarrow>
                  (let (success, pst') = process_message rt pst data
                   in if success
                      then (self\<lparr>decisions := decisions self @ [(message_id message, Ack)],
                                  messages_acked := messages_acked self + 1\<rparr>, pst')
                      else (self\<lparr>decisions := decisions self @ [(message_id message, Nack)],
                                  messages_nacked := messages_nacked self + 1\<rparr>, pst'))))"

definition start_consuming :: "subscriber \<Rightarrow> subscriber" where
  "start_consuming self =
     (let flow_control = \<lparr>max_messages = 10\<rparr>
      in self\<lparr>streaming_pull := Some flow_control, is_consuming := True\<rparr>)"

text \<open>
  What happened to the processing of a message, and the decision the specification asks
  for: ack on success, nack on a failure and on an exception.
\<close>

definition processing_outcome :: "runtime \<Rightarrow> bridge \<Rightarrow> pstate \<Rightarrow> message \<Rightarrow> py_error + bool" where
  "processing_outcome rt br pst m =
     (case json_loads br (data_bytes m) of
        Inl e \<Rightarrow> Inl e
      | Inr data \<Rightarrow>
          (case get_event_loop br of
             Some e \<Rightarrow> Inl e
           | None \<Rightarrow> Inr (fst (process_message rt pst data))))"

fun expected_decision :: "py_error + bool \<Rightarrow> decision" where
  "expected_decision (Inr True) = Ack"
| "expected_decision (Inr False) = Nack"
| "expected_decision (Inl e) = Nack"

text \<open>
  The running consumer. The flow control belongs to the broker client, not to the
  repository; its contract is taken as the specification gives it: the client hands a
  message to the callback only while fewer than \<open>max_messages\<close> messages are outstanding,
  and a message stays outstanding until its callback has taken its decision.
\<close>

record consumer =
  sub :: subscriber
  proc :: pstate
  outstanding :: "message list"

inductive consumer_step :: "runtime \<Rightarrow> bridge \<Rightarrow> consumer \<Rightarrow> consumer \<Rightarrow> bool"
  for rt :: runtime and br :: bridge where
  deliver:
    "streaming_pull (sub c) = Some fc \<Longrightarrow> length (outstanding c) < max_messages fc \<Longrightarrow>
     consumer_step rt br c (c\<lparr>outstanding := outstanding c @ [m]\<rparr>)"
| decide:
    "m \<in> set (outstanding c) \<Longrightarrow> callback rt br (sub c) (proc c) m = (s', p') \<Longrightarrow>
     consumer_step rt br c \<lparr>sub = s', proc = p', outstanding = remove1 m (outstanding c)\<rparr>"

definition running :: "subscriber \<Rightarrow> pstate \<Rightarrow> consumer" where
  "running s p = \<lparr>sub = start_consuming s, proc = p, outstanding = []\<rparr>"

section \<open>app1-produtora/pubsub\_client.py\<close>

text \<open>
  The broker client hands back a future for every accepted send. A future is known by the
  time after which it is resolved, counted from the moment its result is asked for, and by
  what it is resolved to: a message identifier or an exception.
  \<^verbatim>\<open>future.result(timeout=t)\<close> returns or raises that outcome when the future is resolved
  within \<open>t\<close> time units and raises TimeoutError otherwise.
\<close>

record future =
  resolves_after :: nat
  outcome :: "py_error + string"

definition future_result :: "future \<Rightarrow> nat \<Rightarrow> py_error + string" where
  "future_result fut timeout =
     (if resolves_after fut \<le> timeout then outcome fut else Inl TimeoutError)"

text \<open>
  What the publisher gets from outside the repository:
  \<^item> \<open>json_dumps\<close> is \<^verbatim>\<open>json.dumps(data, ensure_ascii=False, default=str).encode('utf-8')\<close>;
  \<^item> \<open>utcnow\<close> gives the text of the n-th reading of the clock;
  \<^item> \<open>client_publish\<close> is \<^verbatim>\<open>publisher_client.publish(topic, payload, **attributes)\<close>, as a
    function of the number of calls made before, the topic, the payload and the attributes:
    the call raises or returns a future.
\<close>

type_synonym attributes = "(string \<times> json) list"

record pub_runtime =
  json_dumps :: "json \<Rightarrow> py_error + string"
  utcnow :: "nat \<Rightarrow> string"
  client_publish :: "nat \<Rightarrow> string \<Rightarrow> string \<Rightarrow> attributes \<Rightarrow> py_error + future"

record publisher =
  topic_path :: string
  publish_calls :: nat
  clock_reads :: nat

record retry =
  initial :: nat
  maximum :: nat
  multiplier :: nat
  deadline :: nat

text \<open>
  \<^verbatim>\<open>_wait_for_publish\<close>: the inner \<^verbatim>\<open>_get_result\<close> builds a Retry object, binds it to a local
  name and waits for the future with a timeout of 30.
\<close>

definition wait_for_publish :: "future \<Rightarrow> py_error + string" where
  "wait_for_publish future =
     (let retry_policy = \<lparr>initial = 1, maximum = 60, multiplier = 2, deadline = 300\<rparr>
      in future_result future 30)"

definition publish_message ::
  "pub_runtime \<Rightarrow> publisher \<Rightarrow> json \<Rightarrow> (py_error + string) \<times> publisher" where
  "publish_message prt self data =
     (case json_dumps prt data of
        Inl e \<Rightarrow> (Inl e, self)
      | Inr message_bytes \<Rightarrow>
          (case data of
             JObj d \<Rightarrow>
               (let now = utcnow prt (clock_reads self);
                    attributes =
                      [(''source'', JStr ''app1-produtora''),
                       (''event_type'', dict_get d ''event_type'' (JStr ''unknown'')),
                       (''timestamp'', dict_get d ''timestamp'' (JStr now)),
                       (''operation'', dict_get d ''operation'' (JStr ''unknown''))];
                    self' = self\<lparr>clock_reads := clock_reads self + 1,
                                  publish_calls := publish_calls self + 1\<rparr>
                in case client_publish prt (publish_calls self) (topic_path self)
                          message_bytes attributes of
                     Inl e \<Rightarrow> (Inl e, self')
                   | Inr future \<Rightarrow> (wait_for_publish future, self'))
           | _ \<Rightarrow> (Inl AttributeError, self)))"

text \<open>
  \<^verbatim>\<open>publish_batch\<close>: the first loop serialises and submits every message, and any exception
  in it leaves the method through the outer handler, which raises it again; the second loop
  waits for each future and turns an exception into \<^verbatim>\<open>None\<close>.
\<close>

definition batch_attributes :: "pub_runtime \<Rightarrow> nat \<Rightarrow> nat \<Rightarrow> nat \<Rightarrow> attributes" where
  "batch_attributes prt tick i n =
     [(''source'', JStr ''app1-produtora''),
      (''batch_index'', JStr (str_of_nat i)),
      (''batch_size'', JStr (str_of_nat n)),
      (''timestamp'', JStr (utcnow prt tick))]"

fun send_all ::
  "pub_runtime \<Rightarrow> publisher \<Rightarrow> nat \<Rightarrow> nat \<Rightarrow> json list \<Rightarrow> (py_error + future list) \<times> publisher" where
  "send_all prt self i n [] = (Inr [], self)"
| "send_all prt self i n (data # rest) =
     (case json_dumps prt data of
        Inl e \<Rightarrow> (Inl e, self)
      | Inr message_bytes \<Rightarrow>
          (let attributes = batch_attributes prt (clock_reads self) i n;
               self' = self\<lparr>clock_reads := clock_reads self + 1,
                             publish_calls := publish_calls self + 1\<rparr>
           in case client_publish prt (publish_calls self) (topic_path self)
                     message_bytes attributes of
                Inl e \<Rightarrow> (Inl e, self')
              | Inr future \<Rightarrow>
                  (case send_all prt self' (i + 1) n rest of
                     (Inl e, self'') \<Rightarrow> (Inl e, self'')
                   | (Inr futures, self'') \<Rightarrow> (Inr (future # futures), self''))))"

definition batch_entry :: "future \<Rightarrow> string option" where
  "batch_entry future =
     (case future_result future 30 of Inr mid \<Rightarrow> Some mid | Inl e \<Rightarrow> None)"

definition wait_all :: "future list \<Rightarrow> string option list" where
  "wait_all futures = map batch_entry futures"

definition publish_batch ::
  "pub_runtime \<Rightarrow> publisher \<Rightarrow> json list \<Rightarrow> (py_error + string option list) \<times> publisher" where
  "publish_batch prt self messages =
     (case send_all prt self 0 (length messages) messages of
        (Inl e, self') \<Rightarrow> (Inl e, self')
      | (Inr futures, self') \<Rightarrow> (Inr (wait_all futures), self'))"

text \<open>
  What serialising and submitting one message of a batch does, a future or an exception,
  and the k-th submission of a batch of \<open>n\<close> messages started in state \<open>self\<close>.
\<close>

definition submit ::
  "pub_runtime \<Rightarrow> string \<Rightarrow> nat \<Rightarrow> nat \<Rightarrow> nat \<Rightarrow> nat \<Rightarrow> json \<Rightarrow> py_error + future" where
  "submit prt topic calls ticks i n data =
     (case json_dumps prt data of
        Inl e \<Rightarrow> Inl e
      | Inr message_bytes \<Rightarrow>
          client_publish prt calls topic message_bytes (batch_attributes prt ticks i n))"

definition submission :: "pub_runtime \<Rightarrow> publisher \<Rightarrow> nat \<Rightarrow> nat \<Rightarrow> json \<Rightarrow> py_error + future" where
  "submission prt self n k data =
     submit prt (topic_path self) (publish_calls self + k) (clock_reads self + k) k n data"

section \<open>The retry policy as the specification words it\<close>

text \<open>
  Modelled from the spec: the retry loop that the specification ascribes to a publish call,
  which the repository does not contain. A send that fails is tried again after a delay
  that starts at 1 time unit, doubles with every attempt and is capped at 60, as long as
  the delays add up to at most 300; after that the last error is the result.
\<close>

function retry_publish :: "(nat \<Rightarrow> py_error + string) \<Rightarrow> nat \<Rightarrow> nat \<Rightarrow> py_error + string" where
  "retry_publish send attempt elapsed =
     (case send attempt of
        Inr mid \<Rightarrow> Inr mid
      | Inl e \<Rightarrow>
          (let delay = min 60 (2 ^ attempt)
           in if elapsed + delay \<le> 300
              then retry_publish send (attempt + 1) (elapsed + delay)
              else Inl e))"
  by pat_completeness auto
termination
proof (relation "measure (\<lambda>(send, attempt, elapsed). 301 - elapsed)")
  show "wf (measure (\<lambda>(send, attempt, elapsed). 301 - elapsed))" by simp
next
  fix send :: "nat \<Rightarrow> py_error + string" and attempt elapsed :: nat and a x :: nat
  assume x: "x = min 60 (2 ^ attempt)" and le: "elapsed + x \<le> 300"
  from x have "0 < x" by simp
  with le show "((send, attempt + 1, elapsed + x), (send, attempt, elapsed))
      \<in> measure (\<lambda>(send, attempt, elapsed). 301 - elapsed)"
    by simp
qed

section \<open>Concrete inputs\<close>

text \<open>
  A runtime with ASCII upper-casing and a database that executes every statement, the
  codec above on both sides of the broker, and a few envelopes and messages.
\<close>

definition runtime0 :: runtime where
  "runtime0 = \<lparr>str_upper = ascii_upper, format_other = (\<lambda>v. ''?''), pool = (\<lambda>s. Executed)\<rparr>"

definition state0 :: pstate where
  "state0 = \<lparr>messages_received = 0, messages_processed = 0, messages_failed = 0,
      database_operations_success = 0, database_operations_failed = 0,
      db_calls = [], sql_log = []\<rparr>"

definition update_without_where :: pydict where
  "update_without_where =
     [(''event_type'', JStr ''database_operation''), (''operation'', JStr ''update''),
      (''table'', JStr ''users''), (''data'', JObj [(''age'', JInt 31)])]"

definition delete_without_where :: pydict where
  "delete_without_where =
     [(''event_type'', JStr ''database_operation''), (''operation'', JStr ''delete''),
      (''table'', JStr ''users''), (''where_clause'', JObj [])]"

definition insert_without_data :: pydict where
  "insert_without_data =
     [(''event_type'', JStr ''database_operation''), (''operation'', JStr ''Insert''),
      (''table'', JStr ''users'')]"

definition envelope0 :: json where
  "envelope0 =
     JObj [(''event_id'', JStr ''evt_1_1''), (''event_type'', JStr ''database_operation''),
           (''operation'', JStr ''INSERT''), (''table'', JStr ''users''),
           (''data'', JObj [(''name'', JStr ''Ana''), (''age'', JInt 30)])]"

definition bridge0 :: bridge where
  "bridge0 = \<lparr>json_loads = loads, get_event_loop = None\<rparr>"

definition message0 :: message where
  "message0 = \<lparr>message_id = ''m-1'', data_bytes = ''{}''\<rparr>"

definition message1 :: message where
  "message1 = \<lparr>message_id = ''m-2'', data_bytes = ''{oops''\<rparr>"

definition message2 :: message where
  "message2 = \<lparr>message_id = ''m-3'', data_bytes = dumps envelope0\<rparr>"

definition publisher0 :: publisher where
  "publisher0 = \<lparr>topic_path = ''projects/p/topics/database-operations'',
                  publish_calls = 0, clock_reads = 0\<rparr>"

text \<open>
  A broker whose first three sends fail with a transient error and whose fourth succeeds,
  a broker that confirms after 31 time units, and a client that refuses the second
  message of a batch.
\<close>

definition flaky_send :: "nat \<Rightarrow> py_error + string" where
  "flaky_send n = (if n < 3 then Inl ConnectionError else Inr ''m-4'')"

definition flaky_runtime :: pub_runtime where
  "flaky_runtime =
     \<lparr>json_dumps = (\<lambda>v. Inr (dumps v)), utcnow = (\<lambda>n. ''2024-01-01T00:00:00''),
      client_publish = (\<lambda>n topic payload attrs.
         Inr \<lparr>resolves_after = 0, outcome = flaky_send n\<rparr>)\<rparr>"

definition slow_runtime :: pub_runtime where
  "slow_runtime =
     \<lparr>json_dumps = (\<lambda>v. Inr (dumps v)), utcnow = (\<lambda>n. ''2024-01-01T00:00:00''),
      client_publish = (\<lambda>n topic payload attrs.
         Inr \<lparr>resolves_after = 31, outcome = Inr ''m-1''\<rparr>)\<rparr>"

definition refusing_runtime :: pub_runtime where
  "refusing_runtime =
     \<lparr>json_dumps = (\<lambda>v. Inr (dumps v)), utcnow = (\<lambda>n. ''2024-01-01T00:00:00''),
      client_publish = (\<lambda>n topic payload attrs.
         if n = 1 then Inl ValueError else Inr \<lparr>resolves_after = 0, outcome = Inr ''m-1''\<rparr>)\<rparr>"

section \<open>Properties of the validation\<close>

lemma dict_contains_iff: "dict_contains d k \<longleftrightarrow> k \<in> fst ` set d"
  by (simp add: dict_contains_def map_of_eq_None_iff)

lemma first_missing_None: "first_missing fs d = None \<longleftrightarrow> (\<forall>f \<in> set fs. dict_contains d f)"
  by (induction fs) auto

lemma first_missing_required: "first_missing required_fields d = None \<longleftrightarrow> fields_present d"
  by (simp add: first_missing_None required_fields_def fields_present_def dict_contains_iff)

lemma present_nonempty_get: "present_nonempty d k = truthy (dict_get d k JNull)"
  by (simp add: present_nonempty_def dict_get_def split: option.splits)

lemma event_type_get:
  "dict_contains d ''event_type'' \<Longrightarrow>
   (dict_get d ''event_type'' JNull = JStr ''database_operation'') = event_type_ok d"
  by (auto simp: dict_contains_def dict_get_def event_type_ok_def split: option.splits)

lemma method_upper_operation:
  "dict_contains d ''operation'' \<Longrightarrow>
   method_upper rt (dict_get d ''operation'' (JStr [])) =
     (case operation_of rt d of None \<Rightarrow> Inl AttributeError | Some op \<Rightarrow> Inr op)"
  by (auto simp: dict_contains_def dict_get_def method_upper_def operation_of_def
           split: option.splits json.splits)

lemma validate_stage: "failed_stage (validate_message rt d) = first_failure rt d"
proof (cases "fields_present d")
  case False
  then obtain f where "first_missing required_fields d = Some f"
    using first_missing_required [of d] by (cases "first_missing required_fields d") auto
  with False show ?thesis by (simp add: validate_message_def first_failure_def)
next
  case True
  then have fm: "first_missing required_fields d = None" by (simp add: first_missing_required)
  from True have c: "dict_contains d ''event_type''" "dict_contains d ''operation''"
    by (simp_all add: fields_present_def dict_contains_iff)
  show ?thesis
  proof (cases "event_type_ok d")
    case False
    with True fm c show ?thesis
      by (simp add: validate_message_def first_failure_def event_type_get)
  next
    case ev: True
    show ?thesis
    proof (cases "operation_of rt d")
      case None
      with True ev fm c show ?thesis
        by (simp add: validate_message_def first_failure_def event_type_get
              method_upper_operation operation_ok_def)
    next
      case (Some op)
      with True ev fm c show ?thesis
        by (auto simp add: validate_message_def first_failure_def event_type_get
              method_upper_operation operation_ok_def valid_operations_def
              requirements_ok_def present_nonempty_get)
    qed
  qed
qed

lemma failed_stage_None: "failed_stage r = None \<longleftrightarrow> r = Inr Valid"
  by (cases r rule: failed_stage.cases) auto

lemma process_message_invalid:
  assumes "validate_message rt d \<noteq> Inr Valid"
  shows "process_message rt st (JObj d) =
           (False, st\<lparr>messages_received := messages_received st + 1,
                      messages_failed := messages_failed st + 1\<rparr>)"
proof (cases "validate_message rt d")
  case (Inl e)
  then show ?thesis by (simp add: process_message_def on_exception_def)
next
  case (Inr v)
  with assms obtain r where "v = Rejected r" by (cases v) auto
  with Inr show ?thesis by (simp add: process_message_def)
qed

lemma process_message_not_dict:
  assumes "\<forall>d. m \<noteq> JObj d"
  shows "process_message rt st m =
           (False, st\<lparr>messages_received := messages_received st + 1,
                      messages_failed := messages_failed st + 1\<rparr>)"
  using assms by (cases m) (simp_all add: process_message_def on_exception_def)

lemma rejected_when_field_empty:
  assumes "operation_ok rt d" and "\<not> requirements_ok rt d"
  shows "\<exists>r. validate_message rt d = Inr (Rejected r)"
proof -
  from assms have "first_failure rt d \<in> {Some FieldsPresent, Some EventType, Some OperationFields}"
    by (simp add: first_failure_def)
  then have "failed_stage (validate_message rt d)
               \<in> {Some FieldsPresent, Some EventType, Some OperationFields}"
    by (simp add: validate_stage)
  then show ?thesis
    by (cases "validate_message rt d" rule: failed_stage.cases) auto
qed

lemma ascii_upper_examples:
  "ascii_upper ''update'' = ''UPDATE''"
  "ascii_upper ''delete'' = ''DELETE''"
  "ascii_upper ''Insert'' = ''INSERT''"
  by (simp_all add: ascii_upper_def ascii_upper_char_def)

text \<open>
  C1. The outcome of the validation is the first stage, in the order (a) required fields,
  (b) event type, (c) operation kind, (d) fields of the operation, that the envelope fails,
  and none when it passes all four. Whenever a stage fails, and whenever the decoded payload
  is not a mapping at all, \<open>process_message\<close> returns False (the failure outcome) in a state
  that differs from the initial one only in the two counters: no call was made on the
  database client and no statement reached the connection.
\<close>

theorem validation_order_and_rejection:
  "failed_stage (validate_message rt d) = first_failure rt d \<and>
   (first_failure rt d \<noteq> None \<longrightarrow>
      process_message rt st (JObj d) =
        (False, st\<lparr>messages_received := messages_received st + 1,
                   messages_failed := messages_failed st + 1\<rparr>)) \<and>
   ((\<forall>d'. m \<noteq> JObj d') \<longrightarrow>
      process_message rt st m =
        (False, st\<lparr>messages_received := messages_received st + 1,
                   messages_failed := messages_failed st + 1\<rparr>))"
  using validate_stage [of rt d] process_message_invalid [of rt d st] failed_stage_None
    process_message_not_dict [of m rt st]
  by metis

theorem validation_order_and_rejection_witness:
  "first_failure runtime0 update_without_where = Some OperationFields \<and>
   failed_stage (validate_message runtime0 update_without_where) = Some OperationFields \<and>
   process_message runtime0 state0 (JObj update_without_where) =
     (False, state0\<lparr>messages_received := messages_received state0 + 1,
                    messages_failed := messages_failed state0 + 1\<rparr>) \<and>
   process_message runtime0 state0 (JList []) =
     (False, state0\<lparr>messages_received := messages_received state0 + 1,
                    messages_failed := messages_failed state0 + 1\<rparr>)"
proof -
  have h: "first_failure runtime0 update_without_where = Some OperationFields"
    by (simp add: first_failure_def fields_present_def event_type_ok_def operation_ok_def
        operation_of_def requirements_ok_def present_nonempty_def runtime0_def
        update_without_where_def ascii_upper_examples)
  have n: "\<forall>d'. JList [] \<noteq> JObj d'" by simp
  from validation_order_and_rejection [of runtime0 update_without_where state0 "JList []"] h n
  show ?thesis by simp
qed

text \<open>
  C2. An envelope whose operation is DELETE (in any letter case) and whose where\_clause is
  absent or the empty mapping is rejected by the validation, and \<open>process_message\<close>
  returns False in a state where only the received and failed counters moved: the list of
  calls on the database client (so also \<open>delete\<close>) and the list of executed statements are
  unchanged.
\<close>

theorem delete_without_where_never_executes:
  assumes "operation_of rt d = Some ''DELETE''"
    and "map_of d ''where_clause'' = None \<or> map_of d ''where_clause'' = Some (JObj [])"
  shows "(\<exists>r. validate_message rt d = Inr (Rejected r)) \<and>
         fst (process_message rt st (JObj d)) = False \<and>
         db_calls (snd (process_message rt st (JObj d))) = db_calls st \<and>
         sql_log (snd (process_message rt st (JObj d))) = sql_log st"
proof -
  from assms(2) have "\<not> present_nonempty d ''where_clause''"
    by (auto simp: present_nonempty_def)
  with assms(1) have "\<not> requirements_ok rt d" by (simp add: requirements_ok_def)
  moreover from assms(1) have "operation_ok rt d" by (simp add: operation_ok_def)
  ultimately have r: "\<exists>r. validate_message rt d = Inr (Rejected r)"
    by (rule rejected_when_field_empty [rotated])
  then have "validate_message rt d \<noteq> Inr Valid" by auto
  from process_message_invalid [OF this, of st] r show ?thesis by simp
qed

theorem delete_without_where_never_executes_witness:
  "operation_of runtime0 delete_without_where = Some ''DELETE'' \<and>
   map_of delete_without_where ''where_clause'' = Some (JObj []) \<and>
   fst (process_message runtime0 state0 (JObj delete_without_where)) = False \<and>
   db_calls (snd (process_message runtime0 state0 (JObj delete_without_where))) = [] \<and>
   sql_log (snd (process_message runtime0 state0 (JObj delete_without_where))) = []"
proof -
  have h1: "operation_of runtime0 delete_without_where = Some ''DELETE''"
    by (simp add: operation_of_def runtime0_def delete_without_where_def ascii_upper_examples)
  have h2: "map_of delete_without_where ''where_clause'' = Some (JObj [])"
    by (simp add: delete_without_where_def)
  have s: "db_calls state0 = []" "sql_log state0 = []" by (simp_all add: state0_def)
  from delete_without_where_never_executes [OF h1 disjI2 [OF h2], of state0] h1 h2 s
  show ?thesis by simp
qed

text \<open>
  C3. An envelope whose operation is INSERT (in any letter case) and whose data is absent
  or the empty mapping is rejected by the validation, and \<open>process_message\<close> returns False
  without any call on the database client and without any executed statement.
\<close>

theorem insert_without_data_never_executes:
  assumes "operation_of rt d = Some ''INSERT''"
    and "map_of d ''data'' = None \<or> map_of d ''data'' = Some (JObj [])"
  shows "(\<exists>r. validate_message rt d = Inr (Rejected r)) \<and>
         fst (process_message rt st (JObj d)) = False \<and>
         db_calls (snd (process_message rt st (JObj d))) = db_calls st \<and>
         sql_log (snd (process_message rt st (JObj d))) = sql_log st"
proof -
  from assms(2) have "\<not> present_nonempty d ''data''"
    by (auto simp: present_nonempty_def)
  with assms(1) have "\<not> requirements_ok rt d" by (simp add: requirements_ok_def)
  moreover from assms(1) have "operation_ok rt d" by (simp add: operation_ok_def)
  ultimately have r: "\<exists>r. validate_message rt d = Inr (Rejected r)"
    by (rule rejected_when_field_empty [rotated])
  then have "validate_message rt d \<noteq> Inr Valid" by auto
  from process_message_invalid [OF this, of st] r show ?thesis by simp
qed

theorem insert_without_data_never_executes_witness:
  "operation_of runtime0 insert_without_data = Some ''INSERT'' \<and>
   map_of insert_without_data ''data'' = None \<and>
   fst (process_message runtime0 state0 (JObj insert_without_data)) = False \<and>
   db_calls (snd (process_message runtime0 state0 (JObj insert_without_data))) = [] \<and>
   sql_log (snd (process_message runtime0 state0 (JObj insert_without_data))) = []"
proof -
  have h1: "operation_of runtime0 insert_without_data = Some ''INSERT''"
    by (simp add: operation_of_def runtime0_def insert_without_data_def ascii_upper_examples)
  have h2: "map_of insert_without_data ''data'' = None"
    by (simp add: insert_without_data_def)
  have s: "db_calls state0 = []" "sql_log state0 = []" by (simp_all add: state0_def)
  from insert_without_data_never_executes [OF h1 disjI1 [OF h2], of state0] h1 h2 s
  show ?thesis by simp
qed

section \<open>Properties of the statements built by the database client\<close>

lemma digit_value_digit_char: "d < 10 \<Longrightarrow> digit_value (digit_char d) = d"
proof -
  assume "d < 10"
  then have "d \<in> {0,1,2,3,4,5,6,7,8,9}" by auto
  then show ?thesis by (auto simp: digit_value_def digit_char_def)
qed

lemma nat_of_str_snoc: "nat_of_str (s @ [c]) = 10 * nat_of_str s + digit_value c"
  by (simp add: nat_of_str_def)

lemma nat_of_str_of_nat: "nat_of_str (str_of_nat n) = n"
proof (induction n rule: str_of_nat.induct)
  case (1 n)
  show ?case
  proof (cases "n < 10")
    case True
    then show ?thesis
      by (subst str_of_nat.simps) (simp add: nat_of_str_def digit_value_digit_char)
  next
    case False
    with 1 have "nat_of_str (str_of_nat (n div 10)) = n div 10" by simp
    with False show ?thesis
      by (subst str_of_nat.simps) (simp add: nat_of_str_snoc digit_value_digit_char)
  qed
qed

lemma str_of_nat_inj: "str_of_nat m = str_of_nat n \<longleftrightarrow> m = n"
  by (metis nat_of_str_of_nat)

lemma placeholder_inj: "placeholder m = placeholder n \<longleftrightarrow> m = n"
  by (simp add: placeholder_def str_of_nat_inj)

lemma sublist_join: "x \<in> set xs \<Longrightarrow> sublist x (join sep xs)"
proof (induction sep xs rule: join.induct)
  case (1 sep)
  then show ?case by simp
next
  case (2 sep x')
  then show ?case by simp
next
  case (3 sep x' y ys)
  show ?case
  proof (cases "x = x'")
    case True
    then show ?thesis by simp
  next
    case False
    with 3 have "sublist x (join sep (y # ys))" by simp
    then obtain ps ss where "join sep (y # ys) = ps @ x @ ss" by (auto simp: sublist_def)
    then have "join sep (x' # y # ys) = (x' @ sep @ ps) @ x @ ss" by simp
    then show ?thesis unfolding sublist_def by blast
  qed
qed

lemma sublist_in_context: "sublist x y \<Longrightarrow> sublist x (a @ y @ b)"
proof -
  assume "sublist x y"
  then obtain ps ss where "y = ps @ x @ ss" by (auto simp: sublist_def)
  then have "a @ y @ b = (a @ ps) @ x @ (ss @ b)" by simp
  then show ?thesis unfolding sublist_def by blast
qed

lemma assignments_length: "length (assignments off ks) = length ks"
  by (simp add: assignments_def)

lemma assignments_nth:
  "i < length ks \<Longrightarrow> assignments off ks ! i = ks ! i @ '' = '' @ placeholder (i + 1 + off)"
  by (simp add: assignments_def nth_enumerate_eq)

lemma sublist_left: "sublist (x @ y) z \<Longrightarrow> sublist x z"
  by (metis sublist_appendI sublist_order.order_trans sublist_append_rightI)

lemma query_text_independent_of_values:
  assumes "map fst data = map fst data'" and "map fst wh = map fst wh'"
  shows "insert_query t data = insert_query t data'"
    and "update_query t data wh = update_query t data' wh'"
    and "delete_query t wh = delete_query t wh'"
proof -
  from assms(1) have "length (map fst data) = length (map fst data')" by simp
  then have l: "length data = length data'" by simp
  from assms l show "insert_query t data = insert_query t data'"
    by (simp add: insert_query_def)
  from assms l show "update_query t data wh = update_query t data' wh'"
    by (simp add: update_query_def)
  from assms show "delete_query t wh = delete_query t wh'"
    by (simp add: delete_query_def)
qed

lemma insert_query_shape:
  "insert_query t data =
     ''INSERT INTO '' @ t @ '' ('' @ join '', '' (map fst data) @ '') VALUES (''
       @ join '', '' (map placeholder [1..<length data + 1]) @ '')''"
proof -
  have "map (\<lambda>i. placeholder (i + 1)) [0..<length data] = map placeholder [1..<length data + 1]"
    by (simp add: map_Suc_upt [symmetric] del: upt_Suc)
  then show ?thesis by (simp add: insert_query_def)
qed

lemma set_item_in_update:
  assumes "i < length data"
  shows "sublist (fst (data ! i) @ '' = '' @ placeholder (i + 1)) (update_query t data wh)"
proof -
  let ?items = "assignments 0 (map fst data)"
  from assms have "?items ! i = fst (data ! i) @ '' = '' @ placeholder (i + 1)"
    by (simp add: assignments_nth)
  moreover from assms have "?items ! i \<in> set ?items"
    by (simp add: assignments_length)
  ultimately have "sublist (fst (data ! i) @ '' = '' @ placeholder (i + 1)) (join '', '' ?items)"
    using sublist_join [of "?items ! i" ?items] by simp
  from sublist_in_context [OF this, of "''UPDATE '' @ t @ '' SET ''"
      "'' WHERE '' @ join '' AND '' (assignments (length data) (map fst wh))"]
  show ?thesis by (simp add: update_query_def)
qed

lemma where_item_in_update:
  assumes "j < length wh"
  shows "sublist (fst (wh ! j) @ '' = '' @ placeholder (length data + j + 1))
           (update_query t data wh)"
proof -
  let ?items = "assignments (length data) (map fst wh)"
  from assms have "?items ! j = fst (wh ! j) @ '' = '' @ placeholder (j + 1 + length data)"
    by (simp add: assignments_nth)
  moreover from assms have "?items ! j \<in> set ?items"
    by (simp add: assignments_length)
  ultimately have
    "sublist (fst (wh ! j) @ '' = '' @ placeholder (j + 1 + length data)) (join '' AND '' ?items)"
    using sublist_join [of "?items ! j" ?items] by simp
  from sublist_in_context [OF this,
      of "''UPDATE '' @ t @ '' SET '' @ join '', '' (assignments 0 (map fst data)) @ '' WHERE ''" "[]"]
  show ?thesis by (simp add: update_query_def add.commute add.left_commute)
qed

lemma where_item_in_delete:
  assumes "j < length wh"
  shows "sublist (fst (wh ! j) @ '' = '' @ placeholder (j + 1)) (delete_query t wh)"
proof -
  let ?items = "assignments 0 (map fst wh)"
  from assms have "?items ! j = fst (wh ! j) @ '' = '' @ placeholder (j + 1)"
    by (simp add: assignments_nth)
  moreover from assms have "?items ! j \<in> set ?items"
    by (simp add: assignments_length)
  ultimately have "sublist (fst (wh ! j) @ '' = '' @ placeholder (j + 1)) (join '' AND '' ?items)"
    using sublist_join [of "?items ! j" ?items] by simp
  from sublist_in_context [OF this, of "''DELETE FROM '' @ t @ '' WHERE ''" "[]"]
  show ?thesis by (simp add: delete_query_def)
qed

lemma placeholder_in_insert:
  assumes "i < length data"
  shows "sublist (placeholder (i + 1)) (insert_query t data)"
proof -
  from assms have "i + 1 \<in> set [1..<length data + 1]" by auto
  then have "placeholder (i + 1) \<in> placeholder ` set [1..<length data + 1]" by (rule imageI)
  then have "placeholder (i + 1) \<in> set (map placeholder [1..<length data + 1])"
    by (simp only: set_map)
  then have "sublist (placeholder (i + 1)) (join '', '' (map placeholder [1..<length data + 1]))"
    by (rule sublist_join)
  from sublist_in_context [OF this,
      of "''INSERT INTO '' @ t @ '' ('' @ join '', '' (map fst data) @ '') VALUES (''" "'')''"]
  show ?thesis by (simp add: insert_query_shape)
qed

lemma bound_values:
  "i < length data \<Longrightarrow> bound_value (insert_statement t data) (i + 1) = Some (snd (data ! i))"
  "i < length data \<Longrightarrow> bound_value (update_statement t data wh) (i + 1) = Some (snd (data ! i))"
  "j < length wh \<Longrightarrow>
     bound_value (update_statement t data wh) (length data + j + 1) = Some (snd (wh ! j))"
  "j < length wh \<Longrightarrow> bound_value (delete_statement t wh) (j + 1) = Some (snd (wh ! j))"
  by (simp_all add: bound_value_def insert_statement_def update_statement_def
      delete_statement_def nth_append)

lemma str_of_nat_digits: "set (str_of_nat n) \<subseteq> set ''0123456789''"
proof (induction n rule: str_of_nat.induct)
  case (1 n)
  have d: "digit_char m \<in> set ''0123456789''" if "m < 10" for m
    unfolding digit_char_def using that by (intro nth_mem) simp
  show ?case
  proof (cases "n < 10")
    case True
    with d [of n] show ?thesis by (subst str_of_nat.simps) simp
  next
    case False
    with 1 have "set (str_of_nat (n div 10)) \<subseteq> set ''0123456789''" by simp
    with False d [of "n mod 10"] show ?thesis by (subst str_of_nat.simps) simp
  qed
qed

lemma placeholder_text:
  "\<forall>n. hd (placeholder n) = CHR ''$'' \<and> nat_of_str (tl (placeholder n)) = n \<and>
     set (tl (placeholder n)) \<subseteq> set ''0123456789''"
  using str_of_nat_digits by (simp add: placeholder_def nat_of_str_of_nat)

lemma join_interleaves:
  "\<forall>sep xs. join sep xs = concat (butlast (concat (map (\<lambda>x. [x, sep]) xs)))"
proof (intro allI)
  fix sep xs
  show "join sep xs = concat (butlast (concat (map (\<lambda>x. [x, sep]) xs)))"
    by (induction sep xs rule: join.induct) simp_all
qed

lemma statement_text:
  "fst (insert_statement t data) = insert_query t data"
  "fst (update_statement t data wh) = update_query t data wh"
  "fst (delete_statement t wh) = delete_query t wh"
  by (simp_all add: insert_statement_def update_statement_def delete_statement_def)

lemma statement_arguments:
  "snd (insert_statement t data) = map snd data"
  "snd (update_statement t data wh) = map snd data @ map snd wh"
  "snd (delete_statement t wh) = map snd wh"
  by (simp_all add: insert_statement_def update_statement_def delete_statement_def)

lemma assignments_of_mapping:
  "assignments off (map fst d) =
     map (\<lambda>i. fst (d ! i) @ '' = '' @ placeholder (off + i + 1)) [0..<length d]"
  by (rule nth_equalityI)
    (simp_all add: assignments_length assignments_nth add.commute add.left_commute)

lemma statement_texts:
  "fst (insert_statement t data) =
     ''INSERT INTO '' @ t @ '' ('' @ join '', '' (map fst data) @ '') VALUES (''
       @ join '', '' (map placeholder [1..<length data + 1]) @ '')''"
  "fst (update_statement t data wh) =
     ''UPDATE '' @ t @ '' SET ''
       @ join '', '' (map (\<lambda>i. fst (data ! i) @ '' = '' @ placeholder (i + 1)) [0..<length data])
       @ '' WHERE ''
       @ join '' AND ''
           (map (\<lambda>j. fst (wh ! j) @ '' = '' @ placeholder (length data + j + 1)) [0..<length wh])"
  "fst (delete_statement t wh) =
     ''DELETE FROM '' @ t @ '' WHERE ''
       @ join '' AND '' (map (\<lambda>j. fst (wh ! j) @ '' = '' @ placeholder (j + 1)) [0..<length wh])"
proof -
  show "fst (insert_statement t data) =
     ''INSERT INTO '' @ t @ '' ('' @ join '', '' (map fst data) @ '') VALUES (''
       @ join '', '' (map placeholder [1..<length data + 1]) @ '')''"
    by (simp only: statement_text insert_query_shape)
  have s: "assignments 0 (map fst data) =
      map (\<lambda>i. fst (data ! i) @ '' = '' @ placeholder (i + 1)) [0..<length data]"
    using assignments_of_mapping [of 0 data] by simp
  have w: "assignments (length data) (map fst wh) =
      map (\<lambda>j. fst (wh ! j) @ '' = '' @ placeholder (length data + j + 1)) [0..<length wh]"
    by (rule assignments_of_mapping)
  have d: "assignments 0 (map fst wh) =
      map (\<lambda>j. fst (wh ! j) @ '' = '' @ placeholder (j + 1)) [0..<length wh]"
    using assignments_of_mapping [of 0 wh] by simp
  show "fst (update_statement t data wh) =
     ''UPDATE '' @ t @ '' SET ''
       @ join '', '' (map (\<lambda>i. fst (data ! i) @ '' = '' @ placeholder (i + 1)) [0..<length data])
       @ '' WHERE ''
       @ join '' AND ''
           (map (\<lambda>j. fst (wh ! j) @ '' = '' @ placeholder (length data + j + 1)) [0..<length wh])"
    unfolding statement_text update_query_def Let_def s w ..
  show "fst (delete_statement t wh) =
     ''DELETE FROM '' @ t @ '' WHERE ''
       @ join '' AND '' (map (\<lambda>j. fst (wh ! j) @ '' = '' @ placeholder (j + 1)) [0..<length wh])"
    unfolding statement_text delete_query_def Let_def d ..
qed

lemma statement_text_independent_of_values:
  assumes "map fst data = map fst data'" and "map fst wh = map fst wh'"
  shows "fst (insert_statement t data) = fst (insert_statement t data')"
    and "fst (update_statement t data wh) = fst (update_statement t data' wh')"
    and "fst (delete_statement t wh) = fst (delete_statement t wh')"
  using query_text_independent_of_values [OF assms, of t] by (simp_all only: statement_text)

lemma run_statement_hands_over:
  "set (fst (run_statement rt stmt)) \<subseteq> {stmt}"
  "pool rt stmt = Executed \<Longrightarrow> run_statement rt stmt = ([stmt], Inr True)"
  by (simp_all add: run_statement_def split: db_result.splits)

lemma methods_hand_over:
  "set (fst (insert_db rt (JStr t) (JObj data))) \<subseteq> {insert_statement t data}"
  "set (fst (update_db rt (JStr t) (JObj data) (JObj wh))) \<subseteq> {update_statement t data wh}"
  "set (fst (delete_db rt (JStr t) (JObj wh))) \<subseteq> {delete_statement t wh}"
  "pool rt (insert_statement t data) = Executed \<longrightarrow>
     insert_db rt (JStr t) (JObj data) = ([insert_statement t data], Inr True)"
  "pool rt (update_statement t data wh) = Executed \<longrightarrow>
     update_db rt (JStr t) (JObj data) (JObj wh) = ([update_statement t data wh], Inr True)"
  "pool rt (delete_statement t wh) = Executed \<longrightarrow>
     delete_db rt (JStr t) (JObj wh) = ([delete_statement t wh], Inr True)"
  by (simp_all add: insert_db_def update_db_def delete_db_def format_value_def
      run_statement_hands_over)

lemma sublist_of_statement_text:
  "i < length data \<Longrightarrow> sublist (placeholder (i + 1)) (fst (insert_statement t data))"
  "i < length data \<Longrightarrow>
     sublist (fst (data ! i) @ '' = '' @ placeholder (i + 1)) (fst (update_statement t data wh))"
  "j < length wh \<Longrightarrow>
     sublist (fst (wh ! j) @ '' = '' @ placeholder (length data + j + 1))
       (fst (update_statement t data wh))"
  "j < length wh \<Longrightarrow>
     sublist (fst (wh ! j) @ '' = '' @ placeholder (j + 1)) (fst (delete_statement t wh))"
  by (simp_all only: statement_text placeholder_in_insert set_item_in_update
      where_item_in_update where_item_in_delete)

text \<open>
  C5. The statement that \<open>insert\<close>, \<open>update\<close> and \<open>delete\<close> hand to \<^verbatim>\<open>conn.execute\<close> is the pair
  of a text and the bound arguments, and nothing else reaches the connection. The text is
  the keyword frame around the table name, the keys and the placeholders numbered from 1 in
  the order of the keys; in \<open>update\<close> the WHERE clause goes on counting after the last SET
  parameter. So the text depends on the table name and the keys only: two mappings with
  the same keys and any values give the same text, and no value is part of it. The bound
  arguments are the values, in the order of the keys, so that the i-th value of \<open>data\<close> is the
  argument of the placeholder numbered i and the j-th value of \<open>where\<close> that of the
  placeholder numbered j in \<open>delete\<close> and \<open>len(data) + j\<close> in \<open>update\<close>. Different numbers give
  different placeholders, so no SET placeholder of \<open>update\<close> is a WHERE placeholder. A
  placeholder is \<^verbatim>\<open>$\<close> followed by the decimal digits of its number, and the items of a
  clause are separated by the separator and by nothing else.
\<close>

theorem values_bound_by_numbered_placeholders:
  "(map fst data = map fst data' \<and> map fst wh = map fst wh' \<longrightarrow>
      fst (insert_statement t data) = fst (insert_statement t data') \<and>
      fst (update_statement t data wh) = fst (update_statement t data' wh') \<and>
      fst (delete_statement t wh) = fst (delete_statement t wh')) \<and>
   fst (insert_statement t data) =
     ''INSERT INTO '' @ t @ '' ('' @ join '', '' (map fst data) @ '') VALUES (''
       @ join '', '' (map placeholder [1..<length data + 1]) @ '')'' \<and>
   fst (update_statement t data wh) =
     ''UPDATE '' @ t @ '' SET ''
       @ join '', '' (map (\<lambda>i. fst (data ! i) @ '' = '' @ placeholder (i + 1)) [0..<length data])
       @ '' WHERE ''
       @ join '' AND ''
           (map (\<lambda>j. fst (wh ! j) @ '' = '' @ placeholder (length data + j + 1)) [0..<length wh]) \<and>
   fst (delete_statement t wh) =
     ''DELETE FROM '' @ t @ '' WHERE ''
       @ join '' AND '' (map (\<lambda>j. fst (wh ! j) @ '' = '' @ placeholder (j + 1)) [0..<length wh]) \<and>
   snd (insert_statement t data) = map snd data \<and>
   snd (update_statement t data wh) = map snd data @ map snd wh \<and>
   snd (delete_statement t wh) = map snd wh \<and>
   (\<forall>i<length data.
      bound_value (insert_statement t data) (i + 1) = Some (snd (data ! i)) \<and>
      bound_value (update_statement t data wh) (i + 1) = Some (snd (data ! i))) \<and>
   (\<forall>j<length wh.
      bound_value (update_statement t data wh) (length data + j + 1) = Some (snd (wh ! j)) \<and>
      bound_value (delete_statement t wh) (j + 1) = Some (snd (wh ! j))) \<and>
   (\<forall>m n. placeholder m = placeholder n \<longrightarrow> m = n) \<and>
   (\<forall>i<length data. \<forall>j<length wh.
      placeholder (i + 1) \<noteq> placeholder (length data + j + 1)) \<and>
   set (fst (insert_db rt (JStr t) (JObj data))) \<subseteq> {insert_statement t data} \<and>
   set (fst (update_db rt (JStr t) (JObj data) (JObj wh))) \<subseteq> {update_statement t data wh} \<and>
   set (fst (delete_db rt (JStr t) (JObj wh))) \<subseteq> {delete_statement t wh} \<and>
   (pool rt (insert_statement t data) = Executed \<longrightarrow>
      insert_db rt (JStr t) (JObj data) = ([insert_statement t data], Inr True)) \<and>
   (pool rt (update_statement t data wh) = Executed \<longrightarrow>
      update_db rt (JStr t) (JObj data) (JObj wh) = ([update_statement t data wh], Inr True)) \<and>
   (pool rt (delete_statement t wh) = Executed \<longrightarrow>
      delete_db rt (JStr t) (JObj wh) = ([delete_statement t wh], Inr True)) \<and>
   (\<forall>n. hd (placeholder n) = CHR ''$'' \<and> nat_of_str (tl (placeholder n)) = n \<and>
      set (tl (placeholder n)) \<subseteq> set ''0123456789'') \<and>
   (\<forall>sep xs. join sep xs = concat (butlast (concat (map (\<lambda>x. [x, sep]) xs))))"
proof -
  have a: "map fst data = map fst data' \<and> map fst wh = map fst wh' \<longrightarrow>
      fst (insert_statement t data) = fst (insert_statement t data') \<and>
      fst (update_statement t data wh) = fst (update_statement t data' wh') \<and>
      fst (delete_statement t wh) = fst (delete_statement t wh')"
    by (intro impI conjI; elim conjE)
      (rule statement_text_independent_of_values; assumption)+
  have b: "\<forall>i<length data.
      bound_value (insert_statement t data) (i + 1) = Some (snd (data ! i)) \<and>
      bound_value (update_statement t data wh) (i + 1) = Some (snd (data ! i))"
  proof (intro allI impI)
    fix i assume i: "i < length data"
    from bound_values(1) [OF i, of t] bound_values(2) [OF i, of t wh]
    show "bound_value (insert_statement t data) (i + 1) = Some (snd (data ! i)) \<and>
      bound_value (update_statement t data wh) (i + 1) = Some (snd (data ! i))"
      by simp
  qed
  have c: "\<forall>j<length wh.
      bound_value (update_statement t data wh) (length data + j + 1) = Some (snd (wh ! j)) \<and>
      bound_value (delete_statement t wh) (j + 1) = Some (snd (wh ! j))"
  proof (intro allI impI)
    fix j assume j: "j < length wh"
    from bound_values(3) [OF j, of t data] bound_values(4) [OF j, of t]
    show "bound_value (update_statement t data wh) (length data + j + 1) = Some (snd (wh ! j)) \<and>
      bound_value (delete_statement t wh) (j + 1) = Some (snd (wh ! j))"
      by simp
  qed
  have d: "\<forall>m n. placeholder m = placeholder n \<longrightarrow> m = n"
    by (simp add: placeholder_inj)
  have e: "\<forall>i<length data. \<forall>j<length wh.
      placeholder (i + 1) \<noteq> placeholder (length data + j + 1)"
    by (simp add: placeholder_inj)
  show ?thesis
    by (intro conjI a b c d e statement_texts statement_arguments methods_hand_over
        placeholder_text join_interleaves)
qed

theorem values_bound_by_numbered_placeholders_witness:
  "fst (update_statement ''users'' [(''age'', JInt 31), (''city'', JStr ''Rio'')]
       [(''name'', JStr ''Ana'')])
     = ''UPDATE users SET age = $1, city = $2 WHERE name = $3'' \<and>
   bound_value (update_statement ''users'' [(''age'', JInt 31), (''city'', JStr ''Rio'')]
       [(''name'', JStr ''Ana'')]) 2
     = Some (JStr ''Rio'') \<and>
   bound_value (update_statement ''users'' [(''age'', JInt 31), (''city'', JStr ''Rio'')]
       [(''name'', JStr ''Ana'')]) 3
     = Some (JStr ''Ana'') \<and>
   placeholder 2 \<noteq> placeholder 3 \<and>
   fst (update_statement ''users'' [(''age'', JInt 31), (''city'', JStr ''Rio'')]
       [(''name'', JStr ''Ana'')])
     = fst (update_statement ''users'' [(''age'', JStr ''x''), (''city'', JNull)]
       [(''name'', JStr ''Bia'')]) \<and>
   update_db runtime0 (JStr ''users'') (JObj [(''age'', JInt 31), (''city'', JStr ''Rio'')])
       (JObj [(''name'', JStr ''Ana'')])
     = ([update_statement ''users'' [(''age'', JInt 31), (''city'', JStr ''Rio'')]
          [(''name'', JStr ''Ana'')]], Inr True)"
proof -
  note T = values_bound_by_numbered_placeholders
    [of "[(''age'', JInt 31), (''city'', JStr ''Rio'')]"
        "[(''age'', JStr ''x''), (''city'', JNull)]" "[(''name'', JStr ''Ana'')]"
        "[(''name'', JStr ''Bia'')]" "''users''" runtime0]
  note independent = T [THEN conjunct1]
  note text_update = T [THEN conjunct2, THEN conjunct2, THEN conjunct1]
  note rest7 = T [THEN conjunct2, THEN conjunct2, THEN conjunct2, THEN conjunct2,
    THEN conjunct2, THEN conjunct2, THEN conjunct2]
  note set_clause = rest7 [THEN conjunct1]
  note where_clause = rest7 [THEN conjunct2, THEN conjunct1]
  note apart = rest7 [THEN conjunct2, THEN conjunct2, THEN conjunct2, THEN conjunct1]
  note executed = rest7 [THEN conjunct2, THEN conjunct2, THEN conjunct2, THEN conjunct2,
    THEN conjunct2, THEN conjunct2, THEN conjunct2, THEN conjunct2, THEN conjunct1]
  have keys: "map fst [(''age'', JInt 31), (''city'', JStr ''Rio'')]
      = map fst [(''age'', JStr ''x''), (''city'', JNull)]"
    "map fst [(''name'', JStr ''Ana'')] = map fst [(''name'', JStr ''Bia'')]"
    by simp_all
  from independent keys
  have e: "fst (update_statement ''users'' [(''age'', JInt 31), (''city'', JStr ''Rio'')]
       [(''name'', JStr ''Ana'')])
     = fst (update_statement ''users'' [(''age'', JStr ''x''), (''city'', JNull)]
       [(''name'', JStr ''Bia'')])"
    by simp
  from text_update
  have t: "fst (update_statement ''users'' [(''age'', JInt 31), (''city'', JStr ''Rio'')]
       [(''name'', JStr ''Ana'')])
     = ''UPDATE users SET age = $1, city = $2 WHERE name = $3''"
    by (simp add: placeholder_def str_of_nat.simps digit_char_def upt_rec)
  from set_clause
  have s: "bound_value (update_statement ''users'' [(''age'', JInt 31), (''city'', JStr ''Rio'')]
       [(''name'', JStr ''Ana'')]) 2
     = Some (JStr ''Rio'')"
    by (simp add: numeral_2_eq_2)
  from where_clause
  have w: "bound_value (update_statement ''users'' [(''age'', JInt 31), (''city'', JStr ''Rio'')]
       [(''name'', JStr ''Ana'')]) 3
     = Some (JStr ''Ana'')"
    by (simp add: numeral_3_eq_3)
  from apart have a: "placeholder 2 \<noteq> placeholder 3"
    by (simp add: numeral_2_eq_2 numeral_3_eq_3)
  have p: "pool runtime0 (update_statement ''users'' [(''age'', JInt 31), (''city'', JStr ''Rio'')]
      [(''name'', JStr ''Ana'')]) = Executed"
    by (simp add: runtime0_def)
  from executed p
  have x: "update_db runtime0 (JStr ''users'')
      (JObj [(''age'', JInt 31), (''city'', JStr ''Rio'')]) (JObj [(''name'', JStr ''Ana'')])
     = ([update_statement ''users'' [(''age'', JInt 31), (''city'', JStr ''Rio'')]
          [(''name'', JStr ''Ana'')]], Inr True)"
    by blast
  from t s w a e x show ?thesis by (intro conjI)
qed

lemma key_then_placeholder:
  "sublist (k @ '' = '' @ placeholder n) q \<Longrightarrow> sublist (k @ '' = $'') q"
proof -
  assume "sublist (k @ '' = '' @ placeholder n) q"
  then have "sublist ((k @ '' = $'') @ str_of_nat n) q" by (simp add: placeholder_def)
  then show ?thesis by (rule sublist_left)
qed

lemma identifiers_in_statement_text:
  "sublist t (fst (insert_statement t data))"
  "sublist t (fst (update_statement t data wh))"
  "sublist t (fst (delete_statement t wh))"
  "\<forall>k \<in> fst ` set data.
      sublist k (fst (insert_statement t data)) \<and>
      sublist (k @ '' = $'') (fst (update_statement t data wh))"
  "\<forall>k \<in> fst ` set wh.
      sublist (k @ '' = $'') (fst (update_statement t data wh)) \<and>
      sublist (k @ '' = $'') (fst (delete_statement t wh))"
proof -
  show "sublist t (fst (insert_statement t data))"
    using sublist_in_context [of t t "''INSERT INTO ''"
        "'' ('' @ join '', '' (map fst data) @ '') VALUES (''
           @ join '', '' (map (\<lambda>i. placeholder (i + 1)) [0..<length data]) @ '')''"]
    by (simp add: statement_text insert_query_def)
  show "sublist t (fst (update_statement t data wh))"
    using sublist_in_context [of t t "''UPDATE ''"
        "'' SET '' @ join '', '' (assignments 0 (map fst data)) @ '' WHERE ''
           @ join '' AND '' (assignments (length data) (map fst wh))"]
    by (simp add: statement_text update_query_def)
  show "sublist t (fst (delete_statement t wh))"
    using sublist_in_context [of t t "''DELETE FROM ''"
        "'' WHERE '' @ join '' AND '' (assignments 0 (map fst wh))"]
    by (simp add: statement_text delete_query_def)
  show "\<forall>k \<in> fst ` set data.
      sublist k (fst (insert_statement t data)) \<and>
      sublist (k @ '' = $'') (fst (update_statement t data wh))"
  proof
    fix k assume k: "k \<in> fst ` set data"
    then have "k \<in> set (map fst data)" by simp
    then have "sublist k (join '', '' (map fst data))" by (rule sublist_join)
    from sublist_in_context [OF this, of "''INSERT INTO '' @ t @ '' (''"
        "'') VALUES ('' @ join '', '' (map (\<lambda>i. placeholder (i + 1)) [0..<length data]) @ '')''"]
    have 1: "sublist k (fst (insert_statement t data))"
      by (simp add: statement_text insert_query_def)
    from k obtain i where "i < length data" "k = fst (data ! i)"
      by (auto simp: in_set_conv_nth)
    with sublist_of_statement_text(2) [of i data t wh]
    have 2: "sublist (k @ '' = $'') (fst (update_statement t data wh))"
      by (auto intro: key_then_placeholder)
    from 1 2 show "sublist k (fst (insert_statement t data)) \<and>
      sublist (k @ '' = $'') (fst (update_statement t data wh))"
      by simp
  qed
  show "\<forall>k \<in> fst ` set wh.
      sublist (k @ '' = $'') (fst (update_statement t data wh)) \<and>
      sublist (k @ '' = $'') (fst (delete_statement t wh))"
  proof
    fix k assume k: "k \<in> fst ` set wh"
    then obtain j where "j < length wh" "k = fst (wh ! j)"
      by (auto simp: in_set_conv_nth)
    with sublist_of_statement_text(3) [of j wh data t] sublist_of_statement_text(4) [of j wh t]
    show "sublist (k @ '' = $'') (fst (update_statement t data wh)) \<and>
      sublist (k @ '' = $'') (fst (delete_statement t wh))"
      by (auto intro: key_then_placeholder)
  qed
qed

text \<open>
  C6. The text of the statement that \<open>insert\<close>, \<open>update\<close> and \<open>delete\<close> hand to
  \<^verbatim>\<open>conn.execute\<close> is the keyword frame with the table name and the keys copied into it as
  they are, unquoted, and with numbered placeholders where the values go; so the table name
  and every key of \<open>data\<close> and \<open>where\<close> occur in the text, in \<open>update\<close> and \<open>delete\<close> a key
  directly before \<^verbatim>\<open> = $\<close>. The bound arguments are the values of the mappings and nothing
  else. A table name that is a str in the envelope reaches the text unchanged, and that
  statement is the only one the method can hand to the connection. A placeholder is
  \<^verbatim>\<open>$\<close> followed by decimal digits, and the items of a clause are separated by the
  separator and by nothing else, so every other character of the text comes from the table
  name or from a key.
\<close>

theorem identifiers_interpolated_verbatim:
  "fst (insert_statement t data) =
     ''INSERT INTO '' @ t @ '' ('' @ join '', '' (map fst data) @ '') VALUES (''
       @ join '', '' (map placeholder [1..<length data + 1]) @ '')'' \<and>
   fst (update_statement t data wh) =
     ''UPDATE '' @ t @ '' SET ''
       @ join '', '' (map (\<lambda>i. fst (data ! i) @ '' = '' @ placeholder (i + 1)) [0..<length data])
       @ '' WHERE ''
       @ join '' AND ''
           (map (\<lambda>j. fst (wh ! j) @ '' = '' @ placeholder (length data + j + 1)) [0..<length wh]) \<and>
   fst (delete_statement t wh) =
     ''DELETE FROM '' @ t @ '' WHERE ''
       @ join '' AND '' (map (\<lambda>j. fst (wh ! j) @ '' = '' @ placeholder (j + 1)) [0..<length wh]) \<and>
   sublist t (fst (insert_statement t data)) \<and>
   sublist t (fst (update_statement t data wh)) \<and>
   sublist t (fst (delete_statement t wh)) \<and>
   (\<forall>k \<in> fst ` set data.
      sublist k (fst (insert_statement t data)) \<and>
      sublist (k @ '' = $'') (fst (update_statement t data wh))) \<and>
   (\<forall>k \<in> fst ` set wh.
      sublist (k @ '' = $'') (fst (update_statement t data wh)) \<and>
      sublist (k @ '' = $'') (fst (delete_statement t wh))) \<and>
   snd (insert_statement t data) = map snd data \<and>
   snd (update_statement t data wh) = map snd data @ map snd wh \<and>
   snd (delete_statement t wh) = map snd wh \<and>
   set (fst (insert_db rt (JStr t) (JObj data))) \<subseteq> {insert_statement t data} \<and>
   set (fst (update_db rt (JStr t) (JObj data) (JObj wh))) \<subseteq> {update_statement t data wh} \<and>
   set (fst (delete_db rt (JStr t) (JObj wh))) \<subseteq> {delete_statement t wh} \<and>
   (pool rt (insert_statement t data) = Executed \<longrightarrow>
      insert_db rt (JStr t) (JObj data) = ([insert_statement t data], Inr True)) \<and>
   (pool rt (update_statement t data wh) = Executed \<longrightarrow>
      update_db rt (JStr t) (JObj data) (JObj wh) = ([update_statement t data wh], Inr True)) \<and>
   (pool rt (delete_statement t wh) = Executed \<longrightarrow>
      delete_db rt (JStr t) (JObj wh) = ([delete_statement t wh], Inr True)) \<and>
   (\<forall>n. hd (placeholder n) = CHR ''$'' \<and> nat_of_str (tl (placeholder n)) = n \<and>
      set (tl (placeholder n)) \<subseteq> set ''0123456789'') \<and>
   (\<forall>sep xs. join sep xs = concat (butlast (concat (map (\<lambda>x. [x, sep]) xs))))"
  by (intro conjI statement_texts identifiers_in_statement_text statement_arguments
      methods_hand_over placeholder_text join_interleaves)

theorem identifiers_interpolated_verbatim_witness:
  "fst (delete_statement ''users; DROP TABLE users; --'' [(''id = 1 OR 1'', JInt 1)])
     = ''DELETE FROM users; DROP TABLE users; -- WHERE id = 1 OR 1 = $1'' \<and>
   sublist ''id = 1 OR 1 = $''
     (fst (delete_statement ''users; DROP TABLE users; --'' [(''id = 1 OR 1'', JInt 1)])) \<and>
   snd (delete_statement ''users; DROP TABLE users; --'' [(''id = 1 OR 1'', JInt 1)]) = [JInt 1] \<and>
   delete_db runtime0 (JStr ''users; DROP TABLE users; --'') (JObj [(''id = 1 OR 1'', JInt 1)])
     = ([delete_statement ''users; DROP TABLE users; --'' [(''id = 1 OR 1'', JInt 1)]], Inr True)"
proof -
  note T = identifiers_interpolated_verbatim
    [of "''users; DROP TABLE users; --''" "[]" "[(''id = 1 OR 1'', JInt 1)]" runtime0]
  note text_delete = T [THEN conjunct2, THEN conjunct2, THEN conjunct1]
  note rest7 = T [THEN conjunct2, THEN conjunct2, THEN conjunct2, THEN conjunct2,
    THEN conjunct2, THEN conjunct2, THEN conjunct2]
  note where_keys = rest7 [THEN conjunct1]
  note arguments = rest7 [THEN conjunct2, THEN conjunct2, THEN conjunct2, THEN conjunct1]
  note executed = rest7 [THEN conjunct2, THEN conjunct2, THEN conjunct2, THEN conjunct2,
    THEN conjunct2, THEN conjunct2, THEN conjunct2, THEN conjunct2, THEN conjunct2,
    THEN conjunct1]
  from text_delete
  have t: "fst (delete_statement ''users; DROP TABLE users; --'' [(''id = 1 OR 1'', JInt 1)])
     = ''DELETE FROM users; DROP TABLE users; -- WHERE id = 1 OR 1 = $1''"
    by (simp add: placeholder_def str_of_nat.simps digit_char_def)
  have h: "''id = 1 OR 1'' \<in> fst ` set [(''id = 1 OR 1'', JInt 1)]" by simp
  from where_keys h
  have k: "sublist ''id = 1 OR 1 = $''
     (fst (delete_statement ''users; DROP TABLE users; --'' [(''id = 1 OR 1'', JInt 1)]))"
    by simp
  from arguments
  have a: "snd (delete_statement ''users; DROP TABLE users; --'' [(''id = 1 OR 1'', JInt 1)])
     = [JInt 1]"
    by simp
  have p: "pool runtime0 (delete_statement ''users; DROP TABLE users; --''
      [(''id = 1 OR 1'', JInt 1)]) = Executed"
    by (simp add: runtime0_def)
  from executed p
  have x: "delete_db runtime0 (JStr ''users; DROP TABLE users; --'')
      (JObj [(''id = 1 OR 1'', JInt 1)])
     = ([delete_statement ''users; DROP TABLE users; --'' [(''id = 1 OR 1'', JInt 1)]], Inr True)"
    by blast
  from t k a x show ?thesis by (intro conjI)
qed

section \<open>Properties of the JSON codec\<close>

lemma hex_value_hex_digit: "n < 16 \<Longrightarrow> hex_value (hex_digit n) = Some n"
proof -
  have "\<forall>n<16. hex_value (hex_digit n) = Some n"
    by (simp add: hex_value_def hex_digit_def eval_nat_numeral All_less_Suc)
  then show "n < 16 \<Longrightarrow> hex_value (hex_digit n) = Some n" by blast
qed

lemma hex4_control:
  assumes "n < 32"
  shows "hex4 [CHR ''0'', CHR ''0'', hex_digit (n div 16), hex_digit (n mod 16)] = Some (n, [])"
proof -
  from assms have "n div 16 < 16" "n mod 16 < 16" by auto
  then have "hex_value (hex_digit (n div 16)) = Some (n div 16)"
    "hex_value (hex_digit (n mod 16)) = Some (n mod 16)"
    by (simp_all add: hex_value_hex_digit)
  moreover have "hex_value CHR ''0'' = Some 0" by (simp add: hex_value_def)
  ultimately show ?thesis by (simp add: hex4_def)
qed

lemma scanstring_escape_char:
  "scanstring (escape_char c @ t) = prepend (Some [c]) (scanstring t)"
proof -
  consider (special) "c \<in> {quote, backslash, CHR 0x08, CHR 0x0C, CHR 0x0A, CHR 0x0D, CHR 0x09}"
    | (control) "c \<notin> {quote, backslash, CHR 0x08, CHR 0x0C, CHR 0x0A, CHR 0x0D, CHR 0x09}"
        "(of_char c :: nat) < 32"
    | (plain) "c \<notin> {quote, backslash, CHR 0x08, CHR 0x0C, CHR 0x0A, CHR 0x0D, CHR 0x09}"
        "\<not> (of_char c :: nat) < 32"
    by blast
  then show ?thesis
  proof cases
    case special
    then show ?thesis
      by (auto simp: escape_char_def unescape_def quote_def backslash_def)
  next
    case control
    let ?n = "of_char c :: nat"
    from control(2) have h: "hex4 [CHR ''0'', CHR ''0'', hex_digit (?n div 16), hex_digit (?n mod 16)]
        = Some (?n, [])"
      by (rule hex4_control)
    from control(2) have u: "utf8 ?n = Some [c]" by (simp add: utf8_def)
    from control have e: "escape_char c =
        [backslash, CHR ''u'', CHR ''0'', CHR ''0'', hex_digit (?n div 16), hex_digit (?n mod 16)]"
      by (simp add: escape_char_def)
    from control(2) have ns: "\<not> 55296 \<le> ?n" by simp
    show ?thesis unfolding e using h u ns
      by (simp add: quote_def backslash_def)
  next
    case plain
    then show ?thesis by (simp add: escape_char_def)
  qed
qed

lemma scanstring_escaped:
  "scanstring (concat (map escape_char s) @ quote # rest) = Some (s, rest)"
proof (induction s)
  case Nil
  then show ?case by simp
next
  case (Cons c s)
  have "scanstring (concat (map escape_char (c # s)) @ quote # rest)
      = scanstring (escape_char c @ (concat (map escape_char s) @ quote # rest))"
    by simp
  also have "\<dots> = prepend (Some [c]) (scanstring (concat (map escape_char s) @ quote # rest))"
    by (rule scanstring_escape_char)
  also have "\<dots> = Some (c # s, rest)" using Cons.IH by (simp add: prepend_def)
  finally show ?case .
qed

lemma scan_once_string:
  "scan_once (encode_basestring s @ rest) = Some (JStr s, rest)"
  by (simp add: scan_once.simps encode_basestring_def scanstring_escaped)

lemma digit_char_is_digit: "d < 10 \<Longrightarrow> is_digit (digit_char d)"
proof -
  have "\<forall>d<10. is_digit (digit_char d)"
    by (simp add: is_digit_def digit_char_def eval_nat_numeral All_less_Suc)
  then show "d < 10 \<Longrightarrow> is_digit (digit_char d)" by blast
qed

lemma digit_char_not_zero: "0 < d \<Longrightarrow> d < 10 \<Longrightarrow> digit_char d \<noteq> CHR ''0''"
proof -
  have "\<forall>d<10. 0 < d \<longrightarrow> digit_char d \<noteq> CHR ''0''"
    by (simp add: digit_char_def eval_nat_numeral All_less_Suc)
  then show "0 < d \<Longrightarrow> d < 10 \<Longrightarrow> digit_char d \<noteq> CHR ''0''" by blast
qed

lemma str_of_nat_is_digit: "c \<in> set (str_of_nat n) \<Longrightarrow> is_digit c"
proof (induction n arbitrary: c rule: str_of_nat.induct)
  case (1 n)
  show ?case
  proof (cases "n < 10")
    case True
    with "1.prems" show ?thesis
      by (subst (asm) str_of_nat.simps) (simp add: digit_char_is_digit)
  next
    case False
    from "1.prems" False have "c \<in> set (str_of_nat (n div 10)) \<or> c = digit_char (n mod 10)"
      by (subst (asm) str_of_nat.simps) auto
    with False "1.IH" show ?thesis
      by (auto simp: digit_char_is_digit)
  qed
qed

lemma str_of_nat_not_Nil: "str_of_nat n \<noteq> []"
  by (subst str_of_nat.simps) simp

lemma hd_str_of_nat_not_zero: "0 < n \<Longrightarrow> hd (str_of_nat n) \<noteq> CHR ''0''"
proof (induction n rule: str_of_nat.induct)
  case (1 n)
  show ?case
  proof (cases "n < 10")
    case True
    with "1.prems" show ?thesis
      by (subst str_of_nat.simps) (simp add: digit_char_not_zero)
  next
    case False
    then have "0 < n div 10" by simp
    with False "1.IH" have "hd (str_of_nat (n div 10)) \<noteq> CHR ''0''" by simp
    with False show ?thesis
      by (subst str_of_nat.simps) (simp add: str_of_nat_not_Nil)
  qed
qed

lemma str_of_zero: "str_of_nat 0 = ''0''"
  by (subst str_of_nat.simps) (simp add: digit_char_def)

lemma takeWhile_digits:
  assumes "rest = [] \<or> \<not> is_digit (hd rest)"
  shows "takeWhile is_digit (str_of_nat n @ rest) = str_of_nat n"
    and "dropWhile is_digit (str_of_nat n @ rest) = rest"
proof -
  have all: "\<forall>c \<in> set (str_of_nat n). is_digit c" by (simp add: str_of_nat_is_digit)
  from assms have t: "takeWhile is_digit rest = []" by (cases rest) auto
  from assms have d: "dropWhile is_digit rest = rest" by (cases rest) auto
  from all t show "takeWhile is_digit (str_of_nat n @ rest) = str_of_nat n"
    by (simp add: takeWhile_append2)
  from all d show "dropWhile is_digit (str_of_nat n @ rest) = rest"
    by (simp add: dropWhile_append2)
qed

lemma match_digits_str_of_nat:
  assumes "rest = [] \<or> \<not> is_digit (hd rest)"
  shows "match_digits (str_of_nat n @ rest) = Some (str_of_nat n, rest)"
proof (cases "n = 0")
  case True
  then show ?thesis by (simp add: str_of_zero match_digits_def)
next
  case False
  obtain c cs where s: "str_of_nat n = c # cs"
    using str_of_nat_not_Nil [of n] by (cases "str_of_nat n") auto
  from False have "hd (str_of_nat n) \<noteq> CHR ''0''" by (simp add: hd_str_of_nat_not_zero)
  with s have c0: "c \<noteq> CHR ''0''" by simp
  from s have cd: "is_digit c" using str_of_nat_is_digit [of c n] by simp
  have "match_digits (str_of_nat n @ rest)
      = Some (takeWhile is_digit (str_of_nat n @ rest), dropWhile is_digit (str_of_nat n @ rest))"
    using c0 cd by (simp add: match_digits_def s)
  with takeWhile_digits [OF assms, of n] show ?thesis by simp
qed

lemma value_end_number:
  assumes "value_end rest"
  shows "rest = [] \<or> \<not> is_digit (hd rest)" and "\<not> has_fraction rest" and "\<not> has_exponent rest"
  using assms
  by (auto simp: value_end_def is_digit_def has_fraction_def has_exponent_def split: list.splits)

lemma hd_str_of_nat_not_minus: "hd (str_of_nat n) \<noteq> CHR ''-''"
proof -
  obtain c cs where s: "str_of_nat n = c # cs"
    using str_of_nat_not_Nil [of n] by (cases "str_of_nat n") auto
  then have "is_digit c" using str_of_nat_is_digit [of c n] by simp
  with s show ?thesis by (auto simp: is_digit_def)
qed

lemma match_number_int_repr:
  assumes "value_end rest"
  shows "match_number (int_repr n @ rest) = Some (JInt n, rest)"
proof (cases "n < 0")
  case True
  from value_end_number [OF assms]
  have m: "match_digits (str_of_nat (nat (- n)) @ rest) = Some (str_of_nat (nat (- n)), rest)"
    by (simp add: match_digits_str_of_nat)
  from True have "- int (nat_of_str (str_of_nat (nat (- n)))) = n"
    by (simp add: nat_of_str_of_nat)
  with True m value_end_number(2,3) [OF assms] show ?thesis
    by (simp add: match_number_def int_repr_def)
next
  case False
  obtain c cs where s: "str_of_nat (nat n) = c # cs"
    using str_of_nat_not_Nil [of "nat n"] by (cases "str_of_nat (nat n)") auto
  with hd_str_of_nat_not_minus [of "nat n"] have c: "c \<noteq> CHR ''-''" by simp
  from value_end_number [OF assms]
  have m: "match_digits (str_of_nat (nat n) @ rest) = Some (str_of_nat (nat n), rest)"
    by (simp add: match_digits_str_of_nat)
  then have m': "match_digits (c # cs @ rest) = Some (c # cs, rest)" by (simp add: s)
  from False have v: "int (nat_of_str (str_of_nat (nat n))) = n"
    by (simp add: nat_of_str_of_nat)
  then have v': "int (nat_of_str (c # cs)) = n" by (simp add: s)
  from False c m' v' value_end_number(2,3) [OF assms] show ?thesis
    by (simp add: match_number_def int_repr_def s)
qed

lemma scan_once_int:
  assumes "value_end rest"
  shows "scan_once (int_repr n @ rest) = Some (JInt n, rest)"
proof -
  obtain c cs where s: "int_repr n = c # cs"
    using str_of_nat_not_Nil by (cases "int_repr n") (auto simp: int_repr_def split: if_splits)
  have "c = CHR ''-'' \<or> is_digit c"
  proof (cases "n < 0")
    case True
    with s show ?thesis by (simp add: int_repr_def)
  next
    case False
    with s have "c \<in> set (str_of_nat (nat n))" by (simp add: int_repr_def)
    then show ?thesis by (simp add: str_of_nat_is_digit)
  qed
  then have c: "c \<noteq> quote" "c \<noteq> CHR ''{''" "c \<noteq> CHR ''[''" "c \<noteq> CHR ''n''" "c \<noteq> CHR ''t''"
    "c \<noteq> CHR ''f''"
    by (auto simp: is_digit_def quote_def)
  have "scan_once (c # cs @ rest) = match_number (c # cs @ rest)"
    using c by (subst scan_once.simps) simp
  with match_number_int_repr [OF assms, of n] show ?thesis by (simp add: s)
qed

lemma scan_once_literals:
  "scan_once (''null'' @ rest) = Some (JNull, rest)"
  "scan_once (''true'' @ rest) = Some (JBool True, rest)"
  "scan_once (''false'' @ rest) = Some (JBool False, rest)"
  by (simp_all add: scan_once.simps quote_def)

lemma skip_ws_simps:
  "skip_ws [] = []"
  "is_ws c \<Longrightarrow> skip_ws (c # s) = skip_ws s"
  "\<not> is_ws c \<Longrightarrow> skip_ws (c # s) = c # s"
  by (simp_all add: skip_ws_def)

lemma is_ws_chars:
  "is_ws CHR '' ''" "\<not> is_ws CHR '',''" "\<not> is_ws CHR '']''" "\<not> is_ws CHR ''}''"
  "\<not> is_ws CHR '':''" "\<not> is_ws quote"
  by (simp_all add: is_ws_def quote_def)

lemma join_Cons: "xs \<noteq> [] \<Longrightarrow> join sep (x # xs) = x @ sep @ join sep xs"
  by (cases xs) simp_all

lemma dumps_head:
  "\<exists>c cs. dumps v = c # cs \<and> \<not> is_ws c \<and> c \<noteq> CHR '']''"
proof (cases v)
  case JNull
  then show ?thesis by (simp add: is_ws_def)
next
  case (JBool b)
  then show ?thesis by (simp add: is_ws_def)
next
  case (JInt n)
  obtain c cs where s: "int_repr n = c # cs"
    using str_of_nat_not_Nil by (cases "int_repr n") (auto simp: int_repr_def split: if_splits)
  have "c = CHR ''-'' \<or> is_digit c"
  proof (cases "n < 0")
    case True
    with s show ?thesis by (simp add: int_repr_def)
  next
    case False
    with s have "c \<in> set (str_of_nat (nat n))" by (simp add: int_repr_def)
    then show ?thesis by (simp add: str_of_nat_is_digit)
  qed
  then have "\<not> is_ws c \<and> c \<noteq> CHR '']''" by (auto simp: is_digit_def is_ws_def)
  with s JInt show ?thesis by simp
next
  case (JStr s)
  then show ?thesis by (simp add: encode_basestring_def is_ws_def quote_def)
next
  case (JList xs)
  then show ?thesis by (simp add: is_ws_def)
next
  case (JObj kvs)
  then show ?thesis by (simp add: is_ws_def)
qed

lemma skip_ws_dumps: "skip_ws (dumps v @ t) = dumps v @ t"
proof -
  from dumps_head [of v] obtain c cs where "dumps v = c # cs" "\<not> is_ws c" by blast
  then show ?thesis by (simp add: skip_ws_simps)
qed

lemma dumps_not_Nil: "dumps v \<noteq> []"
  using dumps_head [of v] by auto

lemma value_end_chars:
  "value_end (CHR '']'' # t)" "value_end (CHR '','' # t)" "value_end (CHR ''}'' # t)" "value_end []"
  by (simp_all add: value_end_def)

lemma parse_items_join:
  assumes "xs \<noteq> []"
    and "\<And>x t. x \<in> set xs \<Longrightarrow> value_end t \<Longrightarrow> scan_once (dumps x @ t) = Some (x, t)"
  shows "parse_items (join '', '' (map dumps xs) @ CHR '']'' # rest) = Some (xs, rest)"
  using assms
proof (induction xs rule: list_nonempty_induct)
  case (single x)
  have s: "scan_once (dumps x @ CHR '']'' # rest) = Some (x, CHR '']'' # rest)"
    by (rule single) (simp_all add: value_end_chars)
  have "parse_items (dumps x @ CHR '']'' # rest) = Some ([x], rest)"
    by (subst parse_items.simps) (simp add: s dumps_not_Nil skip_ws_simps is_ws_chars)
  then show ?case by simp
next
  case (cons x xs)
  let ?J = "join '', '' (map dumps xs) @ CHR '']'' # rest"
  from cons(1) obtain y ys where xs: "xs = y # ys" by (cases xs) auto
  from dumps_head [of y] obtain c' cs' where dy: "dumps y = c' # cs'" "\<not> is_ws c'" by blast
  have J: "skip_ws ?J = ?J"
    by (cases ys) (simp_all add: xs dy skip_ws_simps)
  have IH: "parse_items ?J = Some (xs, rest)"
    by (rule cons.IH) (simp add: cons.prems)
  have s: "scan_once (dumps x @ CHR '','' # CHR '' '' # ?J) = Some (x, CHR '','' # CHR '' '' # ?J)"
    by (rule cons.prems) (simp_all add: value_end_chars)
  have "parse_items (dumps x @ CHR '','' # CHR '' '' # ?J) = Some (x # xs, rest)"
    by (subst parse_items.simps) (simp add: s dumps_not_Nil skip_ws_simps is_ws_chars J IH)
  moreover from cons(1) have "join '', '' (map dumps (x # xs)) @ CHR '']'' # rest
      = dumps x @ CHR '','' # CHR '' '' # ?J"
    by (simp add: join_Cons)
  ultimately show ?case by simp
qed

lemma pairs_text_head:
  assumes "kvs \<noteq> []"
  shows "\<exists>s. join '', '' (map (\<lambda>(k, v). encode_basestring k @ '': '' @ dumps v) kvs) @ t
            = quote # s"
proof -
  from assms obtain k v rest where kvs: "kvs = (k, v) # rest" by (cases kvs) auto
  show ?thesis by (cases rest) (simp_all add: kvs encode_basestring_def)
qed

lemma parse_pairs_join:
  assumes "kvs \<noteq> []"
    and "\<And>k v t. (k, v) \<in> set kvs \<Longrightarrow> value_end t \<Longrightarrow> scan_once (dumps v @ t) = Some (v, t)"
    and "join '', '' (map (\<lambda>(k, v). encode_basestring k @ '': '' @ dumps v) kvs) @ CHR ''}'' # rest
           = quote # s"
  shows "parse_pairs s = Some (kvs, rest)"
  using assms
proof (induction kvs arbitrary: s rule: list_nonempty_induct)
  case (single kv)
  obtain k v where kv: "kv = (k, v)" by (cases kv)
  from single(2) have s: "s = concat (map escape_char k) @
      quote # CHR '':'' # CHR '' '' # dumps v @ CHR ''}'' # rest"
    by (simp add: kv encode_basestring_def)
  have sc: "scan_once (dumps v @ CHR ''}'' # rest) = Some (v, CHR ''}'' # rest)"
    by (rule single(1) [of k]) (simp_all add: kv value_end_chars)
  have "parse_pairs (concat (map escape_char k) @
      quote # CHR '':'' # CHR '' '' # dumps v @ CHR ''}'' # rest) = Some ([(k, v)], rest)"
    by (subst parse_pairs.simps)
      (simp add: scanstring_escaped skip_ws_simps is_ws_chars skip_ws_dumps sc dumps_not_Nil)
  with s kv show ?case by simp
next
  case (cons kv kvs)
  obtain k v where kv: "kv = (k, v)" by (cases kv)
  let ?pt = "\<lambda>(k, v). encode_basestring k @ '': '' @ dumps v"
  from pairs_text_head [OF cons(1), of "CHR ''}'' # rest"]
  obtain s' where s': "join '', '' (map ?pt kvs) @ CHR ''}'' # rest = quote # s'" by blast
  have IH: "parse_pairs s' = Some (kvs, rest)"
  proof (rule cons.IH [OF _ s'])
    fix k' v' t assume "(k', v') \<in> set kvs" "value_end t"
    then show "scan_once (dumps v' @ t) = Some (v', t)"
      using cons.prems(1) [of k' v' t] by simp
  qed
  have A: "join '', '' (map ?pt (kv # kvs)) = ?pt kv @ '', '' @ join '', '' (map ?pt kvs)"
    using cons(1) by (simp add: join_Cons)
  have B: "(?pt kv @ '', '' @ join '', '' (map ?pt kvs)) @ CHR ''}'' # rest = quote # s"
    using cons.prems(2) unfolding A .
  have C: "(?pt kv @ '', '' @ join '', '' (map ?pt kvs)) @ CHR ''}'' # rest
      = ?pt kv @ '', '' @ quote # s'"
    by (simp only: append_assoc s')
  from B C have "quote # s = encode_basestring k @ '': '' @ dumps v @ '', '' @ quote # s'"
    by (simp add: kv)
  then have s: "s = concat (map escape_char k) @
      quote # CHR '':'' # CHR '' '' # dumps v @ CHR '','' # CHR '' '' # quote # s'"
    by (simp add: encode_basestring_def)
  have sc: "scan_once (dumps v @ CHR '','' # CHR '' '' # quote # s')
      = Some (v, CHR '','' # CHR '' '' # quote # s')"
    by (rule cons.prems(1) [of k]) (simp_all add: kv value_end_chars)
  have "parse_pairs (concat (map escape_char k) @
      quote # CHR '':'' # CHR '' '' # dumps v @ CHR '','' # CHR '' '' # quote # s')
      = Some ((k, v) # kvs, rest)"
    by (subst parse_pairs.simps)
      (simp add: scanstring_escaped skip_ws_simps is_ws_chars skip_ws_dumps sc IH dumps_not_Nil)
  with s kv show ?case by simp
qed

lemma dict_set_fresh: "k \<notin> fst ` set d \<Longrightarrow> dict_set d k v = d @ [(k, v)]"
  by (induction d) auto

lemma foldl_dict_set_distinct:
  "distinct (map fst (acc @ ps)) \<Longrightarrow> foldl (\<lambda>d (k, v). dict_set d k v) acc ps = acc @ ps"
proof (induction ps arbitrary: acc)
  case Nil
  then show ?case by simp
next
  case (Cons p ps)
  obtain k v where p: "p = (k, v)" by (cases p)
  from Cons.prems have "k \<notin> fst ` set acc" by (auto simp: p)
  then have "dict_set acc k v = acc @ [(k, v)]" by (rule dict_set_fresh)
  moreover from Cons.prems have "distinct (map fst ((acc @ [(k, v)]) @ ps))" by (simp add: p)
  ultimately show ?case using Cons.IH [of "acc @ [(k, v)]"] by (simp add: p)
qed

lemma dict_of_pairs_distinct: "distinct (map fst ps) \<Longrightarrow> dict_of_pairs ps = ps"
  using foldl_dict_set_distinct [of "[]" ps] by (simp add: dict_of_pairs_def)

lemma scan_once_dumps:
  "distinct_keys v \<Longrightarrow> value_end rest \<Longrightarrow> scan_once (dumps v @ rest) = Some (v, rest)"
proof (induction v arbitrary: rest)
  case JNull
  then show ?case using scan_once_literals(1) [of rest] by simp
next
  case (JBool b)
  then show ?case using scan_once_literals(2,3) [of rest] by (cases b) simp_all
next
  case (JInt n)
  then show ?case by (simp add: scan_once_int)
next
  case (JStr s)
  then show ?case by (simp add: scan_once_string)
next
  case (JList xs)
  show ?case
  proof (cases "xs = []")
    case True
    then show ?thesis
      by (subst scan_once.simps) (simp add: quote_def skip_ws_simps is_ws_chars)
  next
    case False
    let ?J = "join '', '' (map dumps xs) @ CHR '']'' # rest"
    have each: "\<And>x t. x \<in> set xs \<Longrightarrow> value_end t \<Longrightarrow> scan_once (dumps x @ t) = Some (x, t)"
      using JList.IH JList.prems(1) by (simp add: list_all_iff)
    from False obtain y ys where xs: "xs = y # ys" by (cases xs) auto
    from dumps_head [of y] obtain c cs where dy: "dumps y = c # cs" "\<not> is_ws c" "c \<noteq> CHR '']''"
      by blast
    from xs dy obtain r1 where J: "?J = c # r1" by (cases ys) simp_all
    with dy have sk: "skip_ws ?J = c # r1" by (simp add: skip_ws_simps)
    have "parse_items ?J = Some (xs, rest)" by (rule parse_items_join [OF False each])
    with J have p: "parse_items (c # r1) = Some (xs, rest)" by simp
    have "scan_once (CHR ''['' # ?J) = Some (JList xs, rest)"
      by (subst scan_once.simps) (simp add: quote_def sk dy p)
    then show ?thesis by simp
  qed
next
  case (JObj kvs)
  show ?case
  proof (cases "kvs = []")
    case True
    then show ?thesis
      by (subst scan_once.simps) (simp add: quote_def skip_ws_simps is_ws_chars)
  next
    case False
    let ?pt = "\<lambda>(k, v). encode_basestring k @ '': '' @ dumps v"
    let ?J = "join '', '' (map ?pt kvs) @ CHR ''}'' # rest"
    have each: "\<And>k v t. (k, v) \<in> set kvs \<Longrightarrow> value_end t \<Longrightarrow>
        scan_once (dumps v @ t) = Some (v, t)"
    proof -
      fix k v t assume kv: "(k, v) \<in> set kvs" and t: "value_end t"
      from kv JObj.prems(1) have "distinct_keys v" by (auto simp: list_all_iff)
      with JObj.IH [of "(k, v)" v t] kv t show "scan_once (dumps v @ t) = Some (v, t)" by simp
    qed
    from pairs_text_head [OF False, of "CHR ''}'' # rest"]
    obtain s where s: "?J = quote # s" by blast
    have p: "parse_pairs s = Some (kvs, rest)" by (rule parse_pairs_join [OF False each s])
    from JObj.prems(1) have "dict_of_pairs kvs = kvs" by (simp add: dict_of_pairs_distinct)
    with p have "scan_once (CHR ''{'' # quote # s) = Some (JObj kvs, rest)"
      by (subst scan_once.simps) (simp add: quote_def skip_ws_simps is_ws_def)
    with s show ?thesis by simp
  qed
qed

lemma loads_dumps: "distinct_keys v \<Longrightarrow> loads (dumps v) = Inr v"
proof -
  assume "distinct_keys v"
  then have "scan_once (dumps v @ []) = Some (v, [])"
    by (rule scan_once_dumps) (simp add: value_end_chars)
  moreover have "skip_ws (dumps v) = dumps v" using skip_ws_dumps [of v "[]"] by simp
  ultimately show ?thesis by (simp add: loads_def skip_ws_simps)
qed

lemma prepend_Some: "prepend cs res = Some (x, r) \<Longrightarrow> \<exists>s'. res = Some (s', r)"
  by (auto simp: prepend_def split: option.splits)

lemma scanstring_shorter: "scanstring s = Some (x, r) \<Longrightarrow> length r < length s"
proof (induction s arbitrary: x rule: length_induct)
  case (1 s)
  have ih: "length r < length s" if "scanstring t = Some (y, r)" "length t < length s" for t y
    using "1.IH" that by (meson less_trans)
  show ?case
  proof (cases s)
    case Nil
    with "1.prems" show ?thesis by simp
  next
    case (Cons c cs)
    from "1.prems" Cons show ?thesis
      apply (simp split: if_splits list.splits option.splits prod.splits)
      apply (auto dest!: prepend_Some)
      apply (drule ih, simp, simp)+
      done
  qed
qed


lemma skip_ws_length: "length (skip_ws s) \<le> length s"
  by (simp add: skip_ws_def length_dropWhile_le)

lemma skip_ws_Cons_shorter: "skip_ws s = c # r \<Longrightarrow> length r < length s"
  using skip_ws_length [of s] by simp

lemma match_digits_shorter: "match_digits s = Some (ds, r) \<Longrightarrow> length r < length s"
proof (cases s)
  case Nil
  then show "match_digits s = Some (ds, r) \<Longrightarrow> length r < length s"
    by (simp add: match_digits_def)
next
  case (Cons c cs)
  have "length (dropWhile is_digit cs) \<le> length cs" by (rule length_dropWhile_le)
  with Cons show "match_digits s = Some (ds, r) \<Longrightarrow> length r < length s"
    by (auto simp: match_digits_def split: if_splits)
qed

lemma match_number_shorter: "match_number s = Some (v, r) \<Longrightarrow> length r < length s"
  by (cases s)
    (auto simp: match_number_def split: if_splits option.splits prod.splits
      dest!: match_digits_shorter)

lemma parse_items_shorter: "parse_items s = Some (vs, r) \<Longrightarrow> length r < length s"
proof (induction s arbitrary: vs rule: length_induct)
  case (1 s)
  note a = "1.prems"
  from a obtain v r0 where s0: "scan_once s = Some (v, r0)" and g: "length r0 < length s"
    by (subst (asm) parse_items.simps) (auto split: option.splits if_splits)
  from a s0 g obtain c r' where k: "skip_ws r0 = c # r'"
    by (subst (asm) parse_items.simps) (auto split: list.splits)
  from k have l: "length r' < length r0" by (rule skip_ws_Cons_shorter)
  from a s0 g k consider (close) "r = r'"
    | (more) vs' where "parse_items (skip_ws r') = Some (vs', r)"
    by (subst (asm) parse_items.simps) (auto split: if_splits option.splits)
  then show ?case
  proof cases
    case close
    with l g show ?thesis by simp
  next
    case more
    from l g skip_ws_length [of r'] have "length (skip_ws r') < length s" by simp
    with "1.IH" more have "length r < length (skip_ws r')" by blast
    with l g skip_ws_length [of r'] show ?thesis by simp
  qed
qed

lemma parse_pairs_shorter: "parse_pairs s = Some (ps, r) \<Longrightarrow> length r < length s"
proof (induction s arbitrary: ps rule: length_induct)
  case (1 s)
  note a = "1.prems"
  from a obtain key r1 where s1: "scanstring s = Some (key, r1)" and g1: "length r1 < length s"
    by (subst (asm) parse_pairs.simps) (auto split: option.splits if_splits)
  from a s1 g1 obtain r2 where k1: "skip_ws r1 = CHR '':'' # r2"
    by (subst (asm) parse_pairs.simps) (auto split: list.splits if_splits)
  from a s1 g1 k1 obtain v r3 where s3: "scan_once (skip_ws r2) = Some (v, r3)"
    and g3: "length r3 < length (skip_ws r2)"
    by (subst (asm) parse_pairs.simps) (auto split: option.splits if_splits)
  from a s1 g1 k1 s3 g3 obtain c r4 where k3: "skip_ws r3 = c # r4"
    by (subst (asm) parse_pairs.simps) (auto split: list.splits)
  from k1 have l2: "length r2 < length r1" by (rule skip_ws_Cons_shorter)
  from k3 have l4: "length r4 < length r3" by (rule skip_ws_Cons_shorter)
  from l2 l4 g1 g3 skip_ws_length [of r2] have r4: "length r4 < length s" by simp
  from a s1 g1 k1 s3 g3 k3 consider (close) "r = r4"
    | (more) r5 ps' where "skip_ws r4 = quote # r5" "parse_pairs r5 = Some (ps', r)"
    by (subst (asm) parse_pairs.simps) (auto split: if_splits option.splits list.splits)
  then show ?case
  proof cases
    case close
    with r4 show ?thesis by simp
  next
    case more
    from more(1) have "length r5 < length r4" by (rule skip_ws_Cons_shorter)
    with r4 have l5: "length r5 < length s" by simp
    with "1.IH" more(2) have "length r < length r5" by blast
    with l5 show ?thesis by simp
  qed
qed

lemma scan_once_shorter: "scan_once s = Some (v, r) \<Longrightarrow> length r < length s"
proof -
  assume a: "scan_once s = Some (v, r)"
  then obtain c cs where s: "s = c # cs"
    by (cases s) (simp_all add: scan_once.simps)
  consider (str) "c = quote" | (obj) "c \<noteq> quote" "c = CHR ''{''"
    | (arr) "c \<noteq> quote" "c \<noteq> CHR ''{''" "c = CHR ''[''"
    | (other) "c \<noteq> quote" "c \<noteq> CHR ''{''" "c \<noteq> CHR ''[''"
    by blast
  then show ?thesis
  proof cases
    case str
    with a s show ?thesis
      by (subst (asm) scan_once.simps) (auto split: option.splits dest!: scanstring_shorter)
  next
    case obj
    from a s obj obtain d r1 where k: "skip_ws cs = d # r1"
      by (subst (asm) scan_once.simps) (auto split: list.splits)
    from k have l: "length r1 < length cs" by (rule skip_ws_Cons_shorter)
    from a s obj k consider (empty) "r = r1" | (pairs) ps where "parse_pairs r1 = Some (ps, r)"
      by (subst (asm) scan_once.simps) (auto split: if_splits option.splits)
    then show ?thesis
    proof cases
      case empty
      with l s show ?thesis by simp
    next
      case pairs
      from parse_pairs_shorter [OF pairs] l s show ?thesis by simp
    qed
  next
    case arr
    from a s arr obtain d r1 where k: "skip_ws cs = d # r1"
      by (subst (asm) scan_once.simps) (auto split: list.splits)
    from k have l: "length r1 < length cs" by (rule skip_ws_Cons_shorter)
    from a s arr k consider (empty) "r = r1" | (items) vs where "parse_items (d # r1) = Some (vs, r)"
      by (subst (asm) scan_once.simps) (auto split: if_splits option.splits)
    then show ?thesis
    proof cases
      case empty
      with l s show ?thesis by simp
    next
      case items
      from parse_items_shorter [OF items] l s show ?thesis by simp
    qed
  next
    case other
    from a s other show ?thesis
      by (subst (asm) scan_once.simps)
        (auto split: if_splits dest!: match_number_shorter)
  qed
qed

text \<open>The loops without the tests that the termination proof needed.\<close>

lemma parse_items_unguarded:
  "parse_items s =
     (case scan_once s of
        None \<Rightarrow> None
      | Some (v, r) \<Rightarrow>
          (case skip_ws r of
             [] \<Rightarrow> None
           | c # r' \<Rightarrow>
               if c = CHR '']'' then Some ([v], r')
               else if c = CHR '','' then
                 (case parse_items (skip_ws r') of
                    None \<Rightarrow> None
                  | Some (vs, r'') \<Rightarrow> Some (v # vs, r''))
               else None))"
  by (subst parse_items.simps) (auto split: option.splits dest: scan_once_shorter)

lemma parse_pairs_unguarded:
  "parse_pairs s =
     (case scanstring s of
        None \<Rightarrow> None
      | Some (key, r1) \<Rightarrow>
          (case skip_ws r1 of
             [] \<Rightarrow> None
           | c # r2 \<Rightarrow>
               if c = CHR '':'' then
                 (case scan_once (skip_ws r2) of
                    None \<Rightarrow> None
                  | Some (v, r3) \<Rightarrow>
                      (case skip_ws r3 of
                         [] \<Rightarrow> None
                       | c' # r4 \<Rightarrow>
                           if c' = CHR ''}'' then Some ([(key, v)], r4)
                           else if c' = CHR '','' then
                             (case skip_ws r4 of
                                [] \<Rightarrow> None
                              | q # r5 \<Rightarrow>
                                  if q = quote then
                                    (case parse_pairs r5 of
                                       None \<Rightarrow> None
                                     | Some (ps, r6) \<Rightarrow> Some ((key, v) # ps, r6))
                                  else None)
                           else None))
               else None))"
  by (subst parse_pairs.simps)
    (auto split: option.splits list.splits dest: scan_once_shorter scanstring_shorter)

lemma loads_examples:
  "loads ''{}'' = Inr (JObj [])"
  "loads ''{oops'' = Inl JSONDecodeError"
  by code_simp+

lemma distinct_keys_envelope0: "distinct_keys envelope0"
  by (simp add: envelope0_def)

text \<open>
  C7. Every value built from strings, integers, booleans, nulls, lists and mappings, in
  which no mapping has a key twice (as in every Python dict), is read back unchanged from
  the payload that was written for it: \<open>loads\<close> of \<open>dumps\<close> is the value itself, field for
  field, at every depth.
\<close>

theorem payload_round_trip: "distinct_keys v \<Longrightarrow> loads (dumps v) = Inr v"
proof -
  assume "distinct_keys v"
  then have "scan_once (dumps v @ []) = Some (v, [])"
    by (rule scan_once_dumps) (simp add: value_end_chars)
  moreover have "skip_ws (dumps v) = dumps v" using skip_ws_dumps [of v "[]"] by simp
  ultimately show ?thesis by (simp add: loads_def skip_ws_simps)
qed

theorem payload_round_trip_witness:
  "distinct_keys envelope0 \<and> loads (dumps envelope0) = Inr envelope0"
  using payload_round_trip [OF distinct_keys_envelope0] distinct_keys_envelope0 by simp

section \<open>Properties of the consumer\<close>

lemma callback_decisions:
  "decisions (fst (callback rt br s pst m)) =
     decisions s @ [(message_id m, expected_decision (processing_outcome rt br pst m))]"
proof (cases "json_loads br (data_bytes m)")
  case (Inl e)
  then show ?thesis by (simp add: callback_def processing_outcome_def)
next
  case (Inr data)
  show ?thesis
  proof (cases "get_event_loop br")
    case (Some e)
    with Inr show ?thesis by (simp add: callback_def processing_outcome_def)
  next
    case None
    obtain ok pst' where p: "process_message rt pst data = (ok, pst')"
      by (cases "process_message rt pst data")
    with Inr None show ?thesis
      by (cases ok) (simp_all add: callback_def processing_outcome_def)
  qed
qed

text \<open>
  C9. Whatever the payload, the runtime and the state, the callback adds exactly one entry
  for the delivered message to the acknowledgment decisions: Ack when the payload decodes
  and \<open>process_message\<close> returns True, Nack when it returns False and when the decoding
  (or the hand-over to the event loop) raises.
\<close>

theorem callback_takes_one_decision:
  "decisions (fst (callback rt br s pst m)) =
     decisions s @ [(message_id m, expected_decision (processing_outcome rt br pst m))] \<and>
   length (decisions (fst (callback rt br s pst m))) = length (decisions s) + 1 \<and>
   (\<forall>e. json_loads br (data_bytes m) = Inl e \<longrightarrow>
      expected_decision (processing_outcome rt br pst m) = Nack) \<and>
   (\<forall>data. json_loads br (data_bytes m) = Inr data \<and> get_event_loop br = None \<longrightarrow>
      expected_decision (processing_outcome rt br pst m) =
        (if fst (process_message rt pst data) then Ack else Nack))"
proof -
  have a: "decisions (fst (callback rt br s pst m)) =
     decisions s @ [(message_id m, expected_decision (processing_outcome rt br pst m))]"
    by (rule callback_decisions)
  then have b: "length (decisions (fst (callback rt br s pst m))) = length (decisions s) + 1"
    by simp
  have c: "\<forall>e. json_loads br (data_bytes m) = Inl e \<longrightarrow>
      expected_decision (processing_outcome rt br pst m) = Nack"
    by (simp add: processing_outcome_def)
  have d: "\<forall>data. json_loads br (data_bytes m) = Inr data \<and> get_event_loop br = None \<longrightarrow>
      expected_decision (processing_outcome rt br pst m) =
        (if fst (process_message rt pst data) then Ack else Nack)"
    by (simp add: processing_outcome_def)
  show ?thesis by (intro conjI a b c d)
qed

lemma process_envelope0:
  "process_message runtime0 state0 envelope0 =
     (True, state0\<lparr>messages_received := 1, messages_processed := 1,
              database_operations_success := 1,
              db_calls := [CallInsert (JStr ''users'')
                             (JObj [(''name'', JStr ''Ana''), (''age'', JInt 30)])],
              sql_log := [(''INSERT INTO users (name, age) VALUES ($1, $2)'',
                           [JStr ''Ana'', JInt 30])]\<rparr>)"
  by code_simp

theorem callback_takes_one_decision_witness:
  "decisions (fst (callback runtime0 bridge0 (new_subscriber ''p'' ''s'') state0 message1)) =
     [(''m-2'', Nack)] \<and>
   decisions (fst (callback runtime0 bridge0 (new_subscriber ''p'' ''s'') state0 message0)) =
     [(''m-1'', Nack)] \<and>
   decisions (fst (callback runtime0 bridge0 (new_subscriber ''p'' ''s'') state0 message2)) =
     [(''m-3'', Ack)]"
proof -
  note T1 = callback_takes_one_decision
    [of runtime0 bridge0 "new_subscriber ''p'' ''s''" state0 message1]
  note T0 = callback_takes_one_decision
    [of runtime0 bridge0 "new_subscriber ''p'' ''s''" state0 message0]
  note T2 = callback_takes_one_decision
    [of runtime0 bridge0 "new_subscriber ''p'' ''s''" state0 message2]
  have l1: "json_loads bridge0 (data_bytes message1) = Inl JSONDecodeError"
    by (simp add: bridge0_def message1_def loads_examples)
  have l0: "json_loads bridge0 (data_bytes message0) = Inr (JObj []) \<and> get_event_loop bridge0 = None"
    by (simp add: bridge0_def message0_def loads_examples)
  have l2: "json_loads bridge0 (data_bytes message2) = Inr envelope0 \<and> get_event_loop bridge0 = None"
    by (simp add: bridge0_def message2_def loads_dumps distinct_keys_envelope0)
  have p0: "\<not> fst (process_message runtime0 state0 (JObj []))"
    by (simp add: process_message_def validate_message_def required_fields_def
        dict_contains_def)
  have p2: "fst (process_message runtime0 state0 envelope0)"
    by (simp add: process_envelope0)
  from T1 [THEN conjunct2, THEN conjunct2, THEN conjunct1] l1
  have 1: "expected_decision (processing_outcome runtime0 bridge0 state0 message1) = Nack"
    by blast
  from T0 [THEN conjunct2, THEN conjunct2, THEN conjunct2] l0 p0
  have 0: "expected_decision (processing_outcome runtime0 bridge0 state0 message0) = Nack"
    by simp
  from T2 [THEN conjunct2, THEN conjunct2, THEN conjunct2] l2 p2
  have 2: "expected_decision (processing_outcome runtime0 bridge0 state0 message2) = Ack"
    by simp
  from T1 [THEN conjunct1] 1 have a: "decisions (fst (callback runtime0 bridge0
      (new_subscriber ''p'' ''s'') state0 message1)) = [(''m-2'', Nack)]"
    by (simp add: new_subscriber_def message1_def)
  from T0 [THEN conjunct1] 0 have b: "decisions (fst (callback runtime0 bridge0
      (new_subscriber ''p'' ''s'') state0 message0)) = [(''m-1'', Nack)]"
    by (simp add: new_subscriber_def message0_def)
  from T2 [THEN conjunct1] 2 have c: "decisions (fst (callback runtime0 bridge0
      (new_subscriber ''p'' ''s'') state0 message2)) = [(''m-3'', Ack)]"
    by (simp add: new_subscriber_def message2_def)
  from a b c show ?thesis by (intro conjI)
qed

lemma callback_keeps_pull: "streaming_pull (fst (callback rt br s pst m)) = streaming_pull s"
  by (simp add: callback_def Let_def split: sum.splits option.splits prod.splits)

lemma start_consuming_flow: "streaming_pull (start_consuming s) = Some \<lparr>max_messages = 10\<rparr>"
  by (simp add: start_consuming_def)

lemma consumer_step_bound:
  assumes "consumer_step rt br c c'"
    and "streaming_pull (sub c) = Some \<lparr>max_messages = 10\<rparr>"
    and "length (outstanding c) \<le> 10"
  shows "streaming_pull (sub c') = Some \<lparr>max_messages = 10\<rparr> \<and> length (outstanding c') \<le> 10"
  using assms
proof (cases rule: consumer_step.cases)
  case (deliver fc m)
  with assms(2,3) show ?thesis by auto
next
  case (decide m s' p')
  from decide(3) have "s' = fst (callback rt br (sub c) (proc c) m)" by simp
  then have "streaming_pull s' = streaming_pull (sub c)" by (simp add: callback_keeps_pull)
  moreover have "length (remove1 m (outstanding c)) \<le> length (outstanding c)"
    by (simp add: length_remove1)
  ultimately show ?thesis using decide(1) assms(2,3) by simp
qed

lemma consumer_steps_bound:
  assumes "(consumer_step rt br)\<^sup>*\<^sup>* c c'"
    and "streaming_pull (sub c) = Some \<lparr>max_messages = 10\<rparr>"
    and "length (outstanding c) \<le> 10"
  shows "streaming_pull (sub c') = Some \<lparr>max_messages = 10\<rparr> \<and> length (outstanding c') \<le> 10"
  using assms
proof (induction rule: rtranclp_induct)
  case base
  then show ?case by simp
next
  case (step y z)
  then show ?case using consumer_step_bound [of rt br y z] by blast
qed

text \<open>
  C10, the claim as written: the bound on outstanding messages can be configured. It cannot:
  whatever subscriber \<open>start_consuming\<close> is called on, the flow control it passes to the
  broker client has \<open>max_messages = 10\<close>.
\<close>

theorem flow_control_not_configurable:
  "\<not> (\<exists>s. streaming_pull (start_consuming s) \<noteq> Some \<lparr>max_messages = 10\<rparr>)"
  by (simp add: start_consuming_def)

text \<open>
  C10, amended. In every state the running consumer can reach from \<open>start_consuming\<close>, at
  most 10 messages are outstanding; the bound is the constant that \<open>start_consuming\<close> hands
  to the flow control of the broker client when it subscribes.
\<close>

theorem at_most_ten_outstanding:
  assumes "(consumer_step rt br)\<^sup>*\<^sup>* (running s p) c"
  shows "length (outstanding c) \<le> 10 \<and> streaming_pull (sub c) = Some \<lparr>max_messages = 10\<rparr>"
proof -
  have "streaming_pull (sub (running s p)) = Some \<lparr>max_messages = 10\<rparr>"
    by (simp add: running_def start_consuming_flow)
  moreover have "length (outstanding (running s p)) \<le> 10" by (simp add: running_def)
  ultimately show ?thesis using consumer_steps_bound [OF assms] by blast
qed

theorem at_most_ten_outstanding_witness:
  "(consumer_step runtime0 bridge0)\<^sup>*\<^sup>* (running (new_subscriber ''p'' ''s'') state0)
     ((running (new_subscriber ''p'' ''s'') state0)\<lparr>outstanding := [message0]\<rparr>) \<and>
   length (outstanding ((running (new_subscriber ''p'' ''s'') state0)\<lparr>outstanding := [message0]\<rparr>))
     \<le> 10"
proof -
  let ?c = "running (new_subscriber ''p'' ''s'') state0"
  have fc: "streaming_pull (sub ?c) = Some \<lparr>max_messages = 10\<rparr>"
    by (simp add: running_def start_consuming_flow)
  have room: "length (outstanding ?c) < max_messages \<lparr>max_messages = 10\<rparr>"
    by (simp add: running_def)
  from consumer_step.deliver [OF fc room, of runtime0 bridge0 message0]
  have "consumer_step runtime0 bridge0 ?c (?c\<lparr>outstanding := [message0]\<rparr>)"
    by (simp add: running_def)
  then have r: "(consumer_step runtime0 bridge0)\<^sup>*\<^sup>* ?c (?c\<lparr>outstanding := [message0]\<rparr>)"
    by (rule r_into_rtranclp)
  from at_most_ten_outstanding [OF r] r show ?thesis by blast
qed

section \<open>Properties of the publisher\<close>

lemma publish_message_one_send:
  "publish_calls (snd (publish_message prt self data)) \<le> publish_calls self + 1"
  by (simp add: publish_message_def Let_def split: sum.splits json.splits)

lemma publish_message_surfaces_failure:
  assumes "json_dumps prt (JObj d) = Inr b"
    and "client_publish prt (publish_calls self) (topic_path self) b
           [(''source'', JStr ''app1-produtora''),
            (''event_type'', dict_get d ''event_type'' (JStr ''unknown'')),
            (''timestamp'', dict_get d ''timestamp'' (JStr (utcnow prt (clock_reads self)))),
            (''operation'', dict_get d ''operation'' (JStr ''unknown''))] = Inr fut"
  shows "fst (publish_message prt self (JObj d)) = future_result fut 30"
  using assms by (simp add: publish_message_def wait_for_publish_def)

text \<open>
  C4. The code at the inputs where it leaves the claimed policy. With a broker whose first
  three sends fail transiently and whose fourth would succeed, \<open>publish_message\<close> fails
  with the first error after a single send, where the retry policy of the claim returns
  the identifier of the fourth attempt. With a broker that confirms after 31 time units,
  well inside the deadline of 300, \<open>publish_message\<close> fails with TimeoutError.
\<close>

theorem publish_message_does_not_retry:
  "fst (publish_message flaky_runtime publisher0 envelope0) = Inl ConnectionError \<and>
   publish_calls (snd (publish_message flaky_runtime publisher0 envelope0)) = 1 \<and>
   retry_publish flaky_send 0 0 = Inr ''m-4'' \<and>
   fst (publish_message slow_runtime publisher0 envelope0) = Inl TimeoutError"
proof -
  have a: "fst (publish_message flaky_runtime publisher0 envelope0) = Inl ConnectionError"
    by (simp add: publish_message_def flaky_runtime_def publisher0_def envelope0_def
        wait_for_publish_def future_result_def flaky_send_def)
  have b: "publish_calls (snd (publish_message flaky_runtime publisher0 envelope0)) = 1"
    by (simp add: publish_message_def flaky_runtime_def publisher0_def envelope0_def)
  have c: "retry_publish flaky_send 0 0 = Inr ''m-4''"
    by (simp add: flaky_send_def numeral_3_eq_3)
  have d: "fst (publish_message slow_runtime publisher0 envelope0) = Inl TimeoutError"
    by (simp add: publish_message_def slow_runtime_def publisher0_def envelope0_def
        wait_for_publish_def future_result_def)
  show ?thesis by (intro conjI a b c d)
qed

lemma send_all_Cons:
  "fst (send_all prt self i n (data # rest)) =
     (case submit prt (topic_path self) (publish_calls self) (clock_reads self) i n data of
        Inl e \<Rightarrow> Inl e
      | Inr fut \<Rightarrow>
          (case fst (send_all prt
                  (self\<lparr>clock_reads := clock_reads self + 1,
                        publish_calls := publish_calls self + 1\<rparr>) (i + 1) n rest) of
             Inl e \<Rightarrow> Inl e
           | Inr futs \<Rightarrow> Inr (fut # futs)))"
  by (simp add: submit_def Let_def split: sum.splits prod.splits)

lemma send_all_accepted:
  "fst (send_all prt self i n ms) = Inr futs \<longleftrightarrow>
     length futs = length ms \<and>
     (\<forall>k<length ms.
        submit prt (topic_path self) (publish_calls self + k) (clock_reads self + k) (i + k) n
          (ms ! k) = Inr (futs ! k))"
proof (induction ms arbitrary: self i futs)
  case Nil
  then show ?case by auto
next
  case (Cons data rest)
  let ?self' = "self\<lparr>clock_reads := clock_reads self + 1,
                      publish_calls := publish_calls self + 1\<rparr>"
  show ?case
  proof (cases futs)
    case Nil
    then show ?thesis
      by (simp add: send_all_Cons del: send_all.simps split: sum.splits)
  next
    case futs: (Cons g gs)
    have 1: "fst (send_all prt self i n (data # rest)) = Inr (g # gs) \<longleftrightarrow>
          submit prt (topic_path self) (publish_calls self) (clock_reads self) i n data = Inr g \<and>
          fst (send_all prt ?self' (i + 1) n rest) = Inr gs"
      by (simp add: send_all_Cons del: send_all.simps split: sum.splits)
    have 2: "fst (send_all prt ?self' (i + 1) n rest) = Inr gs \<longleftrightarrow>
          length gs = length rest \<and>
          (\<forall>k<length rest.
             submit prt (topic_path self) (publish_calls self + Suc k) (clock_reads self + Suc k)
               (i + Suc k) n (rest ! k) = Inr (gs ! k))"
      using Cons.IH [of ?self' "i + 1" gs] by simp
    have 3: "(length (g # gs) = length (data # rest) \<and>
       (\<forall>k<length (data # rest).
          submit prt (topic_path self) (publish_calls self + k) (clock_reads self + k) (i + k) n
            ((data # rest) ! k) = Inr ((g # gs) ! k))) \<longleftrightarrow>
       (submit prt (topic_path self) (publish_calls self) (clock_reads self) i n data = Inr g \<and>
        length gs = length rest \<and>
        (\<forall>k<length rest.
           submit prt (topic_path self) (publish_calls self + Suc k) (clock_reads self + Suc k)
             (i + Suc k) n (rest ! k) = Inr (gs ! k)))"
      by (simp add: All_less_Suc2) blast
    show ?thesis unfolding futs 1 2 3 ..
  qed
qed

lemma send_all_refused:
  assumes "k < length ms"
    and "submit prt (topic_path self) (publish_calls self + k) (clock_reads self + k) (i + k) n
           (ms ! k) = Inl e"
  shows "\<exists>e'. fst (send_all prt self i n ms) = Inl e'"
proof (cases "fst (send_all prt self i n ms)")
  case (Inl e')
  then show ?thesis by blast
next
  case (Inr futs)
  with assms(1) have "submit prt (topic_path self) (publish_calls self + k)
      (clock_reads self + k) (i + k) n (ms ! k) = Inr (futs ! k)"
    by (simp add: send_all_accepted)
  with assms(2) show ?thesis by simp
qed

lemma publish_batch_fst:
  "fst (publish_batch prt self ms) =
     (case fst (send_all prt self 0 (length ms) ms) of
        Inl e \<Rightarrow> Inl e
      | Inr futs \<Rightarrow> Inr (wait_all futs))"
  by (simp add: publish_batch_def split: prod.splits sum.splits)

text \<open>
  C8, the claim as written: every batch of N envelopes gives a list of N entries, and a
  failing send does not fail the others. With a client that refuses the second of two
  messages when it is submitted, the call raises and returns no list, although the first
  message was sent.
\<close>

theorem refused_send_fails_the_batch:
  "fst (publish_batch refusing_runtime publisher0 [envelope0, envelope0]) = Inl ValueError \<and>
   publish_calls (snd (publish_batch refusing_runtime publisher0 [envelope0, envelope0])) = 2 \<and>
   \<not> (\<exists>ids. fst (publish_batch refusing_runtime publisher0 [envelope0, envelope0]) = Inr ids
          \<and> length ids = 2)"
  by (simp add: publish_batch_def refusing_runtime_def publisher0_def Let_def)

text \<open>
  C8, amended. When the client accepts every one of the N submissions, the batch returns N
  entries in the order of the input, and entry k is the identifier of future k when that
  future yields one within the wait of 30 time units and the null marker otherwise, so an
  entry depends on its own future only. When serialising or submitting some message
  raises, the whole call raises.
\<close>

theorem batch_entries_follow_their_futures:
  "(length futs = length ms \<and>
    (\<forall>k<length ms. submission prt self (length ms) k (ms ! k) = Inr (futs ! k)) \<longrightarrow>
      (\<exists>ids. fst (publish_batch prt self ms) = Inr ids \<and> length ids = length ms \<and>
         (\<forall>k<length ms. ids ! k =
            (case future_result (futs ! k) 30 of Inr mid \<Rightarrow> Some mid | Inl e \<Rightarrow> None)))) \<and>
   ((\<exists>k<length ms. \<exists>e. submission prt self (length ms) k (ms ! k) = Inl e) \<longrightarrow>
      (\<exists>e. fst (publish_batch prt self ms) = Inl e))"
proof (intro conjI impI)
  assume a: "length futs = length ms \<and>
    (\<forall>k<length ms. submission prt self (length ms) k (ms ! k) = Inr (futs ! k))"
  then have "fst (send_all prt self 0 (length ms) ms) = Inr futs"
    by (simp add: send_all_accepted submission_def)
  then have "fst (publish_batch prt self ms) = Inr (wait_all futs)"
    by (simp add: publish_batch_fst)
  moreover from a have "length (wait_all futs) = length ms" by (simp add: wait_all_def)
  moreover from a have "\<forall>k<length ms. wait_all futs ! k =
      (case future_result (futs ! k) 30 of Inr mid \<Rightarrow> Some mid | Inl e \<Rightarrow> None)"
    by (simp add: wait_all_def batch_entry_def)
  ultimately show "\<exists>ids. fst (publish_batch prt self ms) = Inr ids \<and> length ids = length ms \<and>
         (\<forall>k<length ms. ids ! k =
            (case future_result (futs ! k) 30 of Inr mid \<Rightarrow> Some mid | Inl e \<Rightarrow> None))"
    by blast
next
  assume "\<exists>k<length ms. \<exists>e. submission prt self (length ms) k (ms ! k) = Inl e"
  then obtain k e where "k < length ms" "submission prt self (length ms) k (ms ! k) = Inl e"
    by blast
  then have "\<exists>e'. fst (send_all prt self 0 (length ms) ms) = Inl e'"
    using send_all_refused [of k ms prt self 0 "length ms" e] by (simp add: submission_def)
  then show "\<exists>e. fst (publish_batch prt self ms) = Inl e"
    by (auto simp: publish_batch_fst)
qed

theorem batch_entries_follow_their_futures_witness:
  "(\<exists>ids. fst (publish_batch flaky_runtime publisher0
                  [envelope0, envelope0, envelope0, envelope0]) = Inr ids \<and>
      length ids = 4 \<and> ids ! 0 = None \<and> ids ! 3 = Some ''m-4'') \<and>
   (\<exists>e. fst (publish_batch refusing_runtime publisher0 [envelope0, envelope0]) = Inl e)"
proof -
  let ?ms = "[envelope0, envelope0, envelope0, envelope0]"
  let ?futs = "map (\<lambda>n. \<lparr>resolves_after = 0, outcome = flaky_send n\<rparr>) [0, 1, 2, 3]"
  have h: "length ?futs = length ?ms \<and>
    (\<forall>k<length ?ms. submission flaky_runtime publisher0 (length ?ms) k (?ms ! k) = Inr (?futs ! k))"
    by (simp add: submission_def submit_def flaky_runtime_def publisher0_def All_less_Suc
        numeral_2_eq_2 numeral_3_eq_3)
  from batch_entries_follow_their_futures
    [of ?futs ?ms flaky_runtime publisher0, THEN conjunct1, rule_format, OF h]
  obtain ids where ids: "fst (publish_batch flaky_runtime publisher0 ?ms) = Inr ids"
    "length ids = length ?ms"
    "\<forall>k<length ?ms. ids ! k =
       (case future_result (?futs ! k) 30 of Inr mid \<Rightarrow> Some mid | Inl e \<Rightarrow> None)"
    by blast
  from ids(3) have e: "ids ! 0 = None" "ids ! 3 = Some ''m-4''"
    by (simp_all add: future_result_def flaky_send_def)
  from ids(2) have l: "length ids = 4" by simp
  from ids(1) l e have 1: "\<exists>ids. fst (publish_batch flaky_runtime publisher0 ?ms) = Inr ids \<and>
      length ids = 4 \<and> ids ! 0 = None \<and> ids ! 3 = Some ''m-4''"
    by blast
  have r: "\<exists>k<length [envelope0, envelope0]. \<exists>e.
      submission refusing_runtime publisher0 (length [envelope0, envelope0]) k
        ([envelope0, envelope0] ! k) = Inl e"
    by (rule exI [of _ 1]) (simp add: submission_def submit_def refusing_runtime_def publisher0_def)
  from batch_entries_follow_their_futures
    [of "[]" "[envelope0, envelope0]" refusing_runtime publisher0, THEN conjunct2, rule_format, OF r]
  have 2: "\<exists>e. fst (publish_batch refusing_runtime publisher0 [envelope0, envelope0]) = Inl e" .
  from 1 2 show ?thesis by (intro conjI)
qed

end
